theory Spec2Isabelle
  imports Main "HOL-Library.Word" "HOL-Library.AList" "HOL-Library.Multiset"
begin

section \<open>Data model of nodes/monitor.go\<close>

text \<open>
  Block heights are Go \<open>uint64\<close> values. \<open>common.Hash\<close> is a \<open>[32]byte\<close> array,
  compared with \<open>==\<close>; the model keeps its bytes as a list, so that \<open>key[:]\<close> is the
  list itself. A Go \<open>error\<close> is its message; \<open>nil\<close> is \<open>None\<close>.
\<close>

type_synonym uint64 = "64 word"
type_synonym bytes = "8 word list"
type_synonym Hash = bytes
type_synonym error = string

text \<open>
  Modelled from the spec: the status type \<open>NodeStatus\<close> and the struct \<open>blockInfo\<close>
  are declared outside \<open>nodes/monitor.go\<close>. The spec gives the two statuses, and a
  block reference as a height with an identity hash; \<open>doChecks\<close> reads the field
  \<open>hash\<close>.
\<close>

datatype NodeStatus = NodeStatusOK | NodeStatusUnreachable

record blockInfo =
  num :: uint64
  hash :: Hash

text \<open>
  Modelled from the spec: the interface \<open>Node\<close> is declared and implemented outside
  \<open>nodes/monitor.go\<close>; the spec lists its methods \<open>Version\<close>, \<open>UpdateLatest\<close>,
  \<open>HeadNum\<close>, \<open>BlockAt\<close>, \<open>HashAt\<close>, \<open>Name\<close> and \<open>SetStatus\<close>. A node is modelled by
  the answers its methods give during one cycle: \<open>UpdateLatest\<close> is the error the call
  returns (\<open>None\<close> for \<open>nil\<close>), \<open>HeadNum\<close> the head it reports after that call,
  \<open>BlockAt\<close> and \<open>HashAt\<close> its answers for \<open>BlockAt(n, false)\<close> and
  \<open>HashAt(n, false)\<close>. \<open>status\<close> is the field that \<open>SetStatus\<close> writes.
\<close>

record Node =
  Name :: string
  status :: NodeStatus
  Version :: "string \<times> error option"
  UpdateLatest :: "error option"
  HeadNum :: uint64
  BlockAt :: "uint64 \<Rightarrow> blockInfo option"
  HashAt :: "uint64 \<Rightarrow> Hash"

definition SetStatus :: "Node \<Rightarrow> NodeStatus \<Rightarrow> Node" where
  "SetStatus node s = node\<lparr>status := s\<rparr>"

text \<open>
  Go's \<open>int\<close> is taken to be 64 bits wide. The conversion \<open>int(x)\<close> of a \<open>uint64\<close>
  keeps the bits and reads them in two's complement; \<open>uint64(i)\<close> goes back.
\<close>

definition int_of_uint64 :: "uint64 \<Rightarrow> int" where
  "int_of_uint64 x = sint x"

definition uint64_of_int :: "int \<Rightarrow> uint64" where
  "uint64_of_int i = word_of_int i"

section \<open>The divergence finder\<close>

text \<open>
  \<open>sort.Search(n, f)\<close> of the Go standard library:
  \<^verbatim>\<open>
  i, j := 0, n
  for i < j {
      h := int(uint(i+j) >> 1)
      if !f(h) { i = h + 1 } else { j = h }
  }
  return i
  \<close>
  Inside the loop \<open>0 \<le> i < j \<le> n\<close>, where the library's overflow-free midpoint is
  \<open>(i + j) div 2\<close> (lemma \<open>midpoint_no_overflow\<close> below).
\<close>

function Search_loop :: "(int \<Rightarrow> bool) \<Rightarrow> int \<Rightarrow> int \<Rightarrow> int" where
  "Search_loop f i j =
     (if i < j then
        (let h = (i + j) div 2 in
         if \<not> f h then Search_loop f (h + 1) j else Search_loop f i h)
      else i)"
  by pat_completeness auto
termination
  by (relation "measure (\<lambda>(f, i, j). nat (j - i))") auto

declare Search_loop.simps [simp del]

definition Search :: "int \<Rightarrow> (int \<Rightarrow> bool) \<Rightarrow> int" where
  "Search n f = Search_loop f 0 n"

definition findSplit :: "int \<Rightarrow> Node \<Rightarrow> Node \<Rightarrow> int" where
  "findSplit n a b =
     Search n (\<lambda>i. HashAt a (uint64_of_int i) \<noteq> HashAt b (uint64_of_int i))"

section \<open>The pairwise comparator\<close>

text \<open>
  \<open>forPairs\<close> runs two index loops. The callback of \<open>doChecks\<close> writes to variables it
  captures, so the model threads a state \<open>'s\<close> through the calls.
\<close>

function forPairs_inner ::
  "'a list \<Rightarrow> ('a \<Rightarrow> 'a \<Rightarrow> 's \<Rightarrow> 's) \<Rightarrow> nat \<Rightarrow> nat \<Rightarrow> 's \<Rightarrow> 's" where
  "forPairs_inner elems fn i j s =
     (if j < length elems
      then forPairs_inner elems fn i (j + 1) (fn (elems ! i) (elems ! j) s)
      else s)"
  by pat_completeness auto
termination
  by (relation "measure (\<lambda>(elems, fn, i, j, s). length elems - j)") auto

declare forPairs_inner.simps [simp del]

function forPairs_outer ::
  "'a list \<Rightarrow> ('a \<Rightarrow> 'a \<Rightarrow> 's \<Rightarrow> 's) \<Rightarrow> nat \<Rightarrow> 's \<Rightarrow> 's" where
  "forPairs_outer elems fn i s =
     (if i < length elems
      then forPairs_outer elems fn (i + 1) (forPairs_inner elems fn i (i + 1) s)
      else s)"
  by pat_completeness auto
termination
  by (relation "measure (\<lambda>(elems, fn, i, s). length elems - i)") auto

declare forPairs_outer.simps [simp del]

definition forPairs :: "'a list \<Rightarrow> ('a \<Rightarrow> 'a \<Rightarrow> 's \<Rightarrow> 's) \<Rightarrow> 's \<Rightarrow> 's" where
  "forPairs elems fn s = forPairs_outer elems fn 0 s"

text \<open>The calls \<open>forPairs\<close> makes, in order: the callback only records its arguments.\<close>

definition calls :: "'a list \<Rightarrow> ('a \<times> 'a) list" where
  "calls elems = forPairs elems (\<lambda>a b log. log @ [(a, b)]) []"

text \<open>How often the callback ran on the unordered pair of \<open>a\<close> and \<open>b\<close>.\<close>

definition callsOn :: "'a list \<Rightarrow> 'a \<Rightarrow> 'a \<Rightarrow> nat" where
  "callsOn elems a b =
     length (filter (\<lambda>(x, y). (x = a \<and> y = b) \<or> (x = b \<and> y = a)) (calls elems))"

text \<open>The same pairs by structural recursion, used to reason about the index loops.\<close>

fun pairs :: "'a list \<Rightarrow> ('a \<times> 'a) list" where
  "pairs [] = []"
| "pairs (x # xs) = map (Pair x) xs @ pairs xs"

section \<open>One cycle of checks\<close>

text \<open>
  The variables of \<open>doChecks\<close>: \<open>nodes\<close> is \<open>mon.nodes\<close> as the cycle leaves it,
  \<open>heads\<close> the \<open>map[uint64]bool\<close> (an association list with distinct keys, written
  with \<open>AList.update\<close>), \<open>gauge\<close> the value given to the \<open>chain/split\<close> gauge.
  Logging is left out. The report, its JSON file and the export of headers, which
  follow the sort of \<open>headList\<close>, are not modelled.
\<close>

record cycle =
  nodes :: "Node list"
  activeNodes :: "Node list"
  heads :: "(uint64 \<times> bool) list"
  splitSize :: int
  gauge :: int
  headList :: "int list"

definition keys :: "(uint64 \<times> bool) list \<Rightarrow> uint64 set" where
  "keys hs = fst ` set hs"

text \<open>
  The body of the polling loop. \<open>node\<close> is a reference: the status written after the
  \<open>append\<close> is seen through \<open>activeNodes\<close> too.
\<close>

definition pollNode :: "Node \<Rightarrow> cycle \<Rightarrow> cycle" where
  "pollNode node c =
     (case UpdateLatest node of
        Some err \<Rightarrow> c\<lparr>nodes := nodes c @ [SetStatus node NodeStatusUnreachable]\<rparr>
      | None \<Rightarrow>
          (let node' = SetStatus node NodeStatusOK;
               num = HeadNum node'
           in c\<lparr>nodes := nodes c @ [node'],
                activeNodes := activeNodes c @ [node'],
                heads := AList.update num True (heads c)\<rparr>))"

fun pollNodes :: "Node list \<Rightarrow> cycle \<Rightarrow> cycle" where
  "pollNodes [] c = c"
| "pollNodes (node # rest) c = pollNodes rest (pollNode node c)"

definition commonHorizon :: "Node \<Rightarrow> Node \<Rightarrow> uint64" where
  "commonHorizon a b = (if HeadNum b < HeadNum a then HeadNum b else HeadNum a)"

text \<open>The callback given to \<open>forPairs\<close>; each \<open>return\<close> leaves the state as it is.\<close>

definition checkPair :: "Node \<Rightarrow> Node \<Rightarrow> cycle \<Rightarrow> cycle" where
  "checkPair a b c =
     (let highest = commonHorizon a b in
      case BlockAt a highest of
        None \<Rightarrow> c
      | Some ha \<Rightarrow>
          (case BlockAt b highest of
             None \<Rightarrow> c
           | Some hb \<Rightarrow>
               if hash ha = hash hb then c
               else
                 (let split = findSplit (int_of_uint64 highest) a b;
                      splitLength = int_of_uint64 highest - split;
                      c1 = (if splitSize c < splitLength
                            then c\<lparr>splitSize := splitLength\<rparr> else c);
                      c2 = c1\<lparr>heads := AList.update (uint64_of_int split) True (heads c1)\<rparr>
                  in if split > 0
                     then c2\<lparr>heads := AList.update (uint64_of_int (split - 1)) True (heads c2)\<rparr>
                     else c2)))"

text \<open>
  \<open>for k := range heads\<close> visits the keys in an order Go leaves open; the model takes
  the order of the association list, and \<open>headList_of_order\<close> below shows that the
  sorted list does not depend on it. \<open>sort.Sort(sort.Reverse(sort.IntSlice(l)))\<close>
  sorts the integers in descending order.
\<close>

definition headList_of :: "(uint64 \<times> bool) list \<Rightarrow> int list" where
  "headList_of hs = rev (sort (map (\<lambda>(k, _). int_of_uint64 k) hs))"

text \<open>The variables as \<open>doChecks\<close> declares them, before the polling loop.\<close>

definition newCycle :: cycle where
  "newCycle = \<lparr>nodes = [], activeNodes = [], heads = [], splitSize = 0,
                gauge = 0, headList = []\<rparr>"

definition doChecks :: "Node list \<Rightarrow> cycle" where
  "doChecks mon_nodes =
     (let c1 = pollNodes mon_nodes newCycle;
          c2 = forPairs (activeNodes c1) checkPair c1;
          c3 = c2\<lparr>gauge := splitSize c2\<rparr>
      in c3\<lparr>headList := headList_of (heads c3)\<rparr>)"

text \<open>What the callback finds for a pair, read off the code of \<open>checkPair\<close>.\<close>

definition missingBlock :: "Node \<Rightarrow> Node \<Rightarrow> bool" where
  "missingBlock a b =
     (BlockAt a (commonHorizon a b) = None \<or> BlockAt b (commonHorizon a b) = None)"

definition diverging :: "Node \<Rightarrow> Node \<Rightarrow> bool" where
  "diverging a b =
     (case BlockAt a (commonHorizon a b) of
        None \<Rightarrow> False
      | Some ha \<Rightarrow>
          (case BlockAt b (commonHorizon a b) of
             None \<Rightarrow> False
           | Some hb \<Rightarrow> hash ha \<noteq> hash hb))"

definition splitHeight :: "Node \<Rightarrow> Node \<Rightarrow> int" where
  "splitHeight a b = findSplit (int_of_uint64 (commonHorizon a b)) a b"

definition splitLength :: "Node \<Rightarrow> Node \<Rightarrow> int" where
  "splitLength a b = int_of_uint64 (commonHorizon a b) - splitHeight a b"

text \<open>The compared pairs that the callback finds diverging.\<close>

definition divergingPairs :: "Node list \<Rightarrow> (Node \<times> Node) list" where
  "divergingPairs act = filter (\<lambda>(a, b). diverging a b) (calls act)"

text \<open>The heights a pair adds to \<open>heads\<close>.\<close>

definition boundary :: "Node \<Rightarrow> Node \<Rightarrow> uint64 set" where
  "boundary a b =
     (if diverging a b
      then insert (uint64_of_int (splitHeight a b))
             (if splitHeight a b > 0 then {uint64_of_int (splitHeight a b - 1)} else {})
      else {})"

section \<open>Example nodes\<close>

definition blockOf :: "(uint64 \<Rightarrow> Hash) \<Rightarrow> uint64 \<Rightarrow> blockInfo option" where
  "blockOf hs n = Some \<lparr>num = n, hash = hs n\<rparr>"

definition mkNode :: "string \<Rightarrow> uint64 \<Rightarrow> (uint64 \<Rightarrow> Hash) \<Rightarrow> Node" where
  "mkNode nm h hs =
     \<lparr>Name = nm, status = NodeStatusUnreachable, Version = (''v1'', None),
      UpdateLatest = None, HeadNum = h, BlockAt = blockOf hs, HashAt = hs\<rparr>"

definition chainA :: "uint64 \<Rightarrow> Hash" where
  "chainA n = [0]"

definition chainB :: "uint64 \<Rightarrow> Hash" where
  "chainB n = (if n < 50 then [0] else [1])"

definition nodeA :: Node where "nodeA = mkNode ''A'' 100 chainA"
definition nodeB :: Node where "nodeB = mkNode ''B'' 100 chainB"
definition nodeC :: Node where "nodeC = mkNode ''C'' 98 chainA"

definition chainY :: "uint64 \<Rightarrow> Hash" where
  "chainY n = [1]"

text \<open>A node whose poll fails, one that lacks its blocks, and nodes at great heights.\<close>

definition nodeDown :: Node where
  "nodeDown = (mkNode ''D'' 7 chainA)\<lparr>status := NodeStatusOK, UpdateLatest := Some ''timeout''\<rparr>"

definition nodeGap :: Node where
  "nodeGap = (mkNode ''G'' 100 chainB)\<lparr>BlockAt := (\<lambda>n. None)\<rparr>"

definition nodeX :: Node where "nodeX = mkNode ''X'' 9223372036854775808 chainA"
definition nodeY :: Node where "nodeY = mkNode ''Y'' 9223372036854775808 chainY"
definition nodeF :: Node where "nodeF = mkNode ''F'' 5 chainA"

section \<open>The header store\<close>

text \<open>
  LevelDB and the RLP codec are libraries. A LevelDB handle is modelled by the pairs
  it stores and by the error its calls return while the store is faulty (a closed
  handle, an I/O error): \<open>Has\<close> and \<open>Get\<close> fail with \<open>readErr\<close>, \<open>Put\<close> fails with
  \<open>writeErr\<close> and writes nothing; \<open>None\<close> means the calls succeed. \<open>Get\<close> on an absent
  key returns \<open>ErrNotFound\<close>. The library has two error types for corruption:
  \<open>*errors.ErrCorrupted\<close> (\<open>ErrCorrupted\<close>) and \<open>*storage.ErrCorrupted\<close>
  (\<open>StorageErrCorrupted\<close>), which its storage layer returns for a damaged file of the
  store's directory. \<open>IsCorrupted\<close> is the library's \<open>errors.IsCorrupted\<close>, a type
  switch over those two.
\<close>

datatype ldb_error =
  ErrNotFound | ErrCorrupted string | StorageErrCorrupted string | ErrOther string

definition IsCorrupted :: "ldb_error \<Rightarrow> bool" where
  "IsCorrupted err =
     (case err of
        ErrCorrupted m \<Rightarrow> True
      | StorageErrCorrupted m \<Rightarrow> True
      | _ \<Rightarrow> False)"

record leveldb =
  kv :: "bytes \<rightharpoonup> bytes"
  readErr :: "ldb_error option"
  writeErr :: "ldb_error option"

definition ldb_Has :: "leveldb \<Rightarrow> bytes \<Rightarrow> bool \<times> ldb_error option" where
  "ldb_Has d k =
     (case readErr d of
        Some err \<Rightarrow> (False, Some err)
      | None \<Rightarrow> (kv d k \<noteq> None, None))"

definition ldb_Get :: "leveldb \<Rightarrow> bytes \<Rightarrow> ldb_error + bytes" where
  "ldb_Get d k =
     (case readErr d of
        Some err \<Rightarrow> Inl err
      | None \<Rightarrow> (case kv d k of None \<Rightarrow> Inl ErrNotFound | Some v \<Rightarrow> Inr v))"

definition ldb_Put :: "leveldb \<Rightarrow> bytes \<Rightarrow> bytes \<Rightarrow> leveldb \<times> ldb_error option" where
  "ldb_Put d k v =
     (case writeErr d of
        Some err \<Rightarrow> (d, Some err)
      | None \<Rightarrow> (d\<lparr>kv := (kv d)(k \<mapsto> v)\<rparr>, None))"

text \<open>
  What \<open>leveldb.OpenFile\<close> and \<open>leveldb.RecoverFile\<close> return for a path, and the
  library calls made, in order.
\<close>

record disk =
  OpenFile :: "string \<Rightarrow> ldb_error + leveldb"
  RecoverFile :: "string \<Rightarrow> ldb_error + leveldb"

datatype ldb_call = CallOpenFile string | CallRecoverFile string

record blockDB =
  db :: leveldb

text \<open>
  The type assertion of \<open>err\<close> to \<open>*errors.ErrCorrupted\<close>; it is false for a \<open>nil\<close>
  error and for an error of any other type.
\<close>

fun corrupted :: "ldb_error + leveldb \<Rightarrow> bool" where
  "corrupted (Inl (ErrCorrupted m)) = True"
| "corrupted r = False"

definition NewBlockDB :: "disk \<Rightarrow> (ldb_error + blockDB) \<times> ldb_call list" where
  "NewBlockDB d =
     (let file = ''blockDB'';
          opened = OpenFile d file;
          (r, log) = (if corrupted opened
                      then (RecoverFile d file, [CallOpenFile file, CallRecoverFile file])
                      else (opened, [CallOpenFile file]))
      in case r of
           Inl err \<Rightarrow> (Inl err, log)
         | Inr h \<Rightarrow> (Inr \<lparr>db = h\<rparr>, log))"

text \<open>
  \<open>rlp.EncodeToBytes\<close> and \<open>rlp.DecodeBytes\<close> for the header type \<open>'h\<close>. A panic is a
  result of its own kind; the errors of \<open>Has\<close> and \<open>Put\<close> are dropped as in the code.
\<close>

record 'h rlp =
  EncodeToBytes :: "'h \<Rightarrow> error + bytes"
  DecodeBytes :: "bytes \<Rightarrow> error + 'h"

datatype panic = Panic string

definition add :: "'h rlp \<Rightarrow> blockDB \<Rightarrow> Hash \<Rightarrow> 'h \<Rightarrow> panic + blockDB" where
  "add codec bdb key h =
     (let k = key in
      if fst (ldb_Has (db bdb) k) then Inr bdb
      else
        (case EncodeToBytes codec h of
           Inl err \<Rightarrow> Inl (Panic (''Failed encoding header: '' @ err))
         | Inr data \<Rightarrow> Inr (bdb\<lparr>db := fst (ldb_Put (db bdb) k data)\<rparr>)))"

definition get :: "'h rlp \<Rightarrow> blockDB \<Rightarrow> Hash \<Rightarrow> panic + 'h option" where
  "get codec bdb key =
     (case ldb_Get (db bdb) key of
        Inl err \<Rightarrow> Inr None
      | Inr data \<Rightarrow>
          (case DecodeBytes codec data of
             Inl err \<Rightarrow> Inl (Panic (''Failed decoding our own data: '' @ err))
           | Inr h \<Rightarrow> Inr (Some h)))"

section \<open>Example stores\<close>

text \<open>A codec for headers that are one byte long; longer data does not decode.\<close>

definition byteCodec :: "8 word rlp" where
  "byteCodec =
     \<lparr>EncodeToBytes = (\<lambda>h. Inr [h]),
      DecodeBytes = (\<lambda>data. case data of [b] \<Rightarrow> Inr b | _ \<Rightarrow> Inl ''unexpected length'')\<rparr>"

definition emptyStore :: blockDB where
  "emptyStore = \<lparr>db = \<lparr>kv = Map.empty, readErr = None, writeErr = None\<rparr>\<rparr>"

definition closedStore :: blockDB where
  "closedStore =
     \<lparr>db = \<lparr>kv = [[1] \<mapsto> [7]], readErr = Some (ErrOther ''closed''),
            writeErr = Some (ErrOther ''closed'')\<rparr>\<rparr>"

text \<open>Stores on which only the reads, or only the writes, fail.\<close>

definition readFaultStore :: blockDB where
  "readFaultStore =
     \<lparr>db = \<lparr>kv = [[1] \<mapsto> [7]], readErr = Some (ErrOther ''read error''),
            writeErr = None\<rparr>\<rparr>"

definition writeFaultStore :: blockDB where
  "writeFaultStore =
     \<lparr>db = \<lparr>kv = Map.empty, readErr = None,
            writeErr = Some (ErrOther ''write error'')\<rparr>\<rparr>"

text \<open>
  A codec for header pointers: as in RLP, \<open>nil\<close> encodes to the empty list \<open>0xC0\<close>,
  which does not decode to a header.
\<close>

definition ptrCodec :: "8 word option rlp" where
  "ptrCodec =
     \<lparr>EncodeToBytes = (\<lambda>h. case h of None \<Rightarrow> Inr [192] | Some b \<Rightarrow> Inr [193, b]),
      DecodeBytes = (\<lambda>data. case data of
                       [t, b] \<Rightarrow> Inr (Some b)
                     | _ \<Rightarrow> Inl ''rlp: too few elements'')\<rparr>"

definition garbledStore :: blockDB where
  "garbledStore = \<lparr>db = \<lparr>kv = [[1] \<mapsto> [7, 7]], readErr = None, writeErr = None\<rparr>\<rparr>"

definition corruptDisk :: disk where
  "corruptDisk =
     \<lparr>OpenFile = (\<lambda>f. Inl (ErrCorrupted ''manifest'')),
      RecoverFile = (\<lambda>f. Inr (db emptyStore))\<rparr>"

definition lostDisk :: disk where
  "lostDisk =
     \<lparr>OpenFile = (\<lambda>f. Inl (ErrCorrupted ''manifest'')),
      RecoverFile = (\<lambda>f. Inl (ErrOther ''no such file''))\<rparr>"

text \<open>A store directory whose \<open>CURRENT\<close> file is damaged, and that recovery rebuilds.\<close>

definition damagedDisk :: disk where
  "damagedDisk =
     \<lparr>OpenFile = (\<lambda>f. Inl (StorageErrCorrupted ''CURRENT'')),
      RecoverFile = (\<lambda>f. Inr (db emptyStore))\<rparr>"

definition lockedDisk :: disk where
  "lockedDisk =
     \<lparr>OpenFile = (\<lambda>f. Inl (ErrOther ''resource temporarily unavailable'')),
      RecoverFile = (\<lambda>f. Inr (db emptyStore))\<rparr>"

section \<open>The divergence finder returns the split\<close>

lemma Search_loop_finds:
  "i \<le> k \<Longrightarrow> k \<le> j \<Longrightarrow> (\<forall>x. i \<le> x \<and> x < k \<longrightarrow> \<not> f x) \<Longrightarrow>
   (\<forall>x. k \<le> x \<and> x < j \<longrightarrow> f x) \<Longrightarrow> Search_loop f i j = k"
proof (induction f i j rule: Search_loop.induct)
  case (1 f i j)
  show ?case
  proof (cases "i < j")
    case False
    with "1.prems" show ?thesis by (subst Search_loop.simps) simp
  next
    case True
    define h where "h = (i + j) div 2"
    have hb: "i \<le> h" "h < j" using True by (auto simp: h_def)
    show ?thesis
    proof (cases "f h")
      case fh: True
      then have kh: "k \<le> h" using "1.prems"(3) hb by (meson not_le)
      have "Search_loop f i h = k"
        using "1.IH"(2)[OF True h_def] fh kh "1.prems" hb by auto
      then show ?thesis using True fh
        by (subst Search_loop.simps) (simp add: h_def Let_def)
    next
      case nfh: False
      then have kh: "h + 1 \<le> k" using "1.prems"(4) hb by (smt (verit))
      have "Search_loop f (h + 1) j = k"
        using "1.IH"(1)[OF True h_def] nfh kh "1.prems" hb by auto
      then show ?thesis using True nfh
        by (subst Search_loop.simps) (simp add: h_def Let_def)
    qed
  qed
qed

lemma Search_loop_bounds:
  "i \<le> j \<Longrightarrow> i \<le> Search_loop f i j \<and> Search_loop f i j \<le> j"
proof (induction f i j rule: Search_loop.induct)
  case (1 f i j)
  show ?case
  proof (cases "i < j")
    case False
    with "1.prems" show ?thesis by (subst (1 2) Search_loop.simps) simp
  next
    case True
    define h where "h = (i + j) div 2"
    have hb: "i \<le> h" "h < j" using True by (auto simp: h_def)
    show ?thesis
    proof (cases "f h")
      case fh: True
      have "i \<le> Search_loop f i h \<and> Search_loop f i h \<le> h"
        using "1.IH"(2)[OF True h_def] fh hb by auto
      then show ?thesis using True fh hb
        by (subst (1 2) Search_loop.simps) (simp add: h_def Let_def)
    next
      case nfh: False
      have "h + 1 \<le> Search_loop f (h + 1) j \<and> Search_loop f (h + 1) j \<le> j"
        using "1.IH"(1)[OF True h_def] nfh hb by auto
      then show ?thesis using True nfh hb
        by (subst (1 2) Search_loop.simps) (simp add: h_def Let_def)
    qed
  qed
qed

lemma Search_nonpos: "n \<le> 0 \<Longrightarrow> Search n f = 0"
  unfolding Search_def by (subst Search_loop.simps) simp

lemma Search_bounds: "0 \<le> n \<Longrightarrow> 0 \<le> Search n f \<and> Search n f \<le> n"
  unfolding Search_def by (rule Search_loop_bounds)

lemma findSplit_eq:
  assumes "0 \<le> k" and "k \<le> N"
    and "\<forall>i. 0 \<le> i \<and> i < k \<longrightarrow> HashAt a (uint64_of_int i) = HashAt b (uint64_of_int i)"
    and "\<forall>i. k \<le> i \<and> i < N \<longrightarrow> HashAt a (uint64_of_int i) \<noteq> HashAt b (uint64_of_int i)"
  shows "findSplit N a b = k"
  unfolding findSplit_def Search_def
  by (rule Search_loop_finds) (use assms in auto)

lemma uint64_of_int_less:
  "0 \<le> i \<Longrightarrow> i < 2 ^ 64 \<Longrightarrow> 0 \<le> j \<Longrightarrow> j < 2 ^ 64 \<Longrightarrow>
   (uint64_of_int i < uint64_of_int j) = (i < j)"
  by (simp add: uint64_of_int_def word_less_def uint_word_of_int take_bit_int_eq_self)

lemma uint64_of_int_less_numeral:
  "0 \<le> i \<Longrightarrow> i < 2 ^ 64 \<Longrightarrow> numeral w < (2 ^ 64 :: int) \<Longrightarrow>
   (uint64_of_int i < numeral w) = (i < numeral w)"
  using uint64_of_int_less [of i "numeral w"] by (simp add: uint64_of_int_def)

text \<open>
  Claim C1. Let the hashes of two nodes agree at every height in \<open>[0, k)\<close> and
  differ at every height in \<open>[k, N)\<close>, with \<open>0 \<le> k \<le> N\<close>. Then
  \<open>findSplit N a b\<close> returns exactly \<open>k\<close>; this covers \<open>k = 0\<close>, \<open>k = N - 1\<close>
  and \<open>k = N\<close>. The heights are the Go integers \<open>i\<close> the search visits, converted
  with \<open>uint64(i)\<close> as the code does.
\<close>

theorem findSplit_returns_split:
  assumes "0 \<le> k" and "k \<le> N"
    and "\<forall>i. 0 \<le> i \<and> i < k \<longrightarrow> HashAt a (uint64_of_int i) = HashAt b (uint64_of_int i)"
    and "\<forall>i. k \<le> i \<and> i < N \<longrightarrow> HashAt a (uint64_of_int i) \<noteq> HashAt b (uint64_of_int i)"
  shows "findSplit N a b = k"
  unfolding findSplit_def Search_def
  by (rule Search_loop_finds) (use assms in auto)

lemma chainAB_agree: "0 \<le> i \<Longrightarrow> i < 100 \<Longrightarrow> (chainA (uint64_of_int i) = chainB (uint64_of_int i)) = (i < 50)"
  by (simp add: chainA_def chainB_def uint64_of_int_less_numeral)

theorem findSplit_returns_split_witness:
  "findSplit 100 nodeA nodeB = 50"
proof -
  have agree: "\<forall>i. 0 \<le> i \<and> i < 50 \<longrightarrow>
      HashAt nodeA (uint64_of_int i) = HashAt nodeB (uint64_of_int i)"
    by (simp add: nodeA_def nodeB_def mkNode_def chainAB_agree)
  have differ: "\<forall>i. 50 \<le> i \<and> i < 100 \<longrightarrow>
      HashAt nodeA (uint64_of_int i) \<noteq> HashAt nodeB (uint64_of_int i)"
    by (simp add: nodeA_def nodeB_def mkNode_def chainAB_agree)
  show ?thesis
    by (rule findSplit_returns_split [OF _ _ agree differ]) simp_all
qed

section \<open>The pairwise comparator calls each pair once\<close>

lemma fold_log: "fold (\<lambda>(a, b) log. log @ [(a, b)]) xs acc = acc @ xs"
  by (induction xs arbitrary: acc) auto

lemma forPairs_inner_fold:
  "forPairs_inner elems fn i j s = fold (\<lambda>b. fn (elems ! i) b) (drop j elems) s"
proof (induction elems fn i j s rule: forPairs_inner.induct)
  case (1 elems fn i j s)
  show ?case
  proof (cases "j < length elems")
    case True
    have "forPairs_inner elems fn i j s =
          forPairs_inner elems fn i (j + 1) (fn (elems ! i) (elems ! j) s)"
      using True by (subst forPairs_inner.simps) simp
    also have "\<dots> = fold (\<lambda>b. fn (elems ! i) b) (drop (j + 1) elems) (fn (elems ! i) (elems ! j) s)"
      using "1.IH" [OF True] .
    also have "\<dots> = fold (\<lambda>b. fn (elems ! i) b) (elems ! j # drop (j + 1) elems) s"
      by simp
    also have "elems ! j # drop (j + 1) elems = drop j elems"
      using True by (simp add: Cons_nth_drop_Suc)
    finally show ?thesis .
  next
    case False
    then show ?thesis by (subst forPairs_inner.simps) simp
  qed
qed

lemma fold_map_Pair:
  "fold (\<lambda>(a, b). fn a b) (map (Pair x) ys) t = fold (\<lambda>b. fn x b) ys t"
  by (induction ys arbitrary: t) auto

lemma forPairs_outer_fold:
  "forPairs_outer elems fn i s = fold (\<lambda>(a, b). fn a b) (pairs (drop i elems)) s"
proof (induction elems fn i s rule: forPairs_outer.induct)
  case (1 elems fn i s)
  show ?case
  proof (cases "i < length elems")
    case True
    have d: "elems ! i # drop (i + 1) elems = drop i elems"
      using True by (simp add: Cons_nth_drop_Suc)
    have "forPairs_outer elems fn i s =
          forPairs_outer elems fn (i + 1) (forPairs_inner elems fn i (i + 1) s)"
      using True by (subst forPairs_outer.simps) simp
    also have "\<dots> = fold (\<lambda>(a, b). fn a b) (pairs (drop (i + 1) elems))
                        (fold (\<lambda>b. fn (elems ! i) b) (drop (i + 1) elems) s)"
      using "1.IH" [OF True] by (simp only: forPairs_inner_fold)
    also have "\<dots> = fold (\<lambda>(a, b). fn a b) (pairs (elems ! i # drop (i + 1) elems)) s"
      by (simp add: fold_map_Pair)
    finally show ?thesis by (simp only: d)
  next
    case False
    then show ?thesis by (subst forPairs_outer.simps) simp
  qed
qed

lemma forPairs_fold: "forPairs elems fn s = fold (\<lambda>(a, b). fn a b) (pairs elems) s"
  by (simp add: forPairs_def forPairs_outer_fold)

lemma calls_pairs: "calls elems = pairs elems"
  unfolding calls_def by (subst forPairs_fold) (simp add: fold_log)

lemma length_pairs: "length (pairs xs) = length xs * (length xs - 1) div 2"
proof (induction xs)
  case Nil
  show ?case by simp
next
  case (Cons x xs)
  have "even (length xs * (length xs - 1))" by (cases "length xs") auto
  then have "length xs + length xs * (length xs - 1) div 2 = (length xs * (length xs - 1) + 2 * length xs) div 2"
    by simp
  also have "length xs * (length xs - 1) + 2 * length xs = (length xs + 1) * length xs"
    by (cases "length xs") auto
  finally show ?case using Cons by (simp add: mult.commute)
qed

lemma count_filter_Pair:
  "length (filter (\<lambda>(x, y). (x = a \<and> y = b) \<or> (x = b \<and> y = a)) (map (Pair z) xs)) =
     (if a = b then (if z = a then count_list xs a else 0)
      else (if z = a then count_list xs b else 0) + (if z = b then count_list xs a else 0))"
  by (induction xs) auto

lemma callsOn_Cons:
  "callsOn (z # xs) a b =
     (if a = b then (if z = a then count_list xs a else 0)
      else (if z = a then count_list xs b else 0) + (if z = b then count_list xs a else 0))
     + callsOn xs a b"
  by (simp only: callsOn_def calls_pairs pairs.simps filter_append length_append count_filter_Pair)

lemma callsOn_count:
  "callsOn elems a b =
     (if a = b then count_list elems a choose 2
      else count_list elems a * count_list elems b)"
proof (induction elems)
  case Nil
  show ?case by (simp add: callsOn_def calls_pairs)
next
  case (Cons z xs)
  have c: "Suc n choose 2 = n + (n choose 2)" for n :: nat
    by (simp add: numeral_2_eq_2)
  show ?case
    by (simp only: callsOn_Cons Cons.IH) (auto simp: c algebra_simps)
qed

lemma callsOn_distinct:
  "distinct elems \<Longrightarrow> a \<in> set elems \<Longrightarrow> b \<in> set elems \<Longrightarrow> a \<noteq> b \<Longrightarrow>
   callsOn elems a b = 1"
  by (simp add: callsOn_count distinct_count_atmost_1 count_mset split: if_splits)

lemma callsOn_mset:
  "mset elems' = mset elems \<Longrightarrow> callsOn elems' a b = callsOn elems a b"
proof -
  assume "mset elems' = mset elems"
  then have "count_list elems' x = count_list elems x" for x
    by (metis count_mset)
  then show ?thesis by (simp add: callsOn_count)
qed

lemma pairs_index:
  "pairs xs = concat (map (\<lambda>i. map (\<lambda>j. (xs ! i, xs ! j)) [Suc i..<length xs]) [0..<length xs])"
proof (induction xs)
  case Nil
  show ?case by simp
next
  case (Cons x xs)
  have a: "map (\<lambda>j. (x, (x # xs) ! j)) [Suc 0..<Suc (length xs)] = map (Pair x) xs"
  proof -
    have "map (\<lambda>j. (x, (x # xs) ! j)) [Suc 0..<Suc (length xs)] =
          map (\<lambda>j. (x, xs ! j)) [0..<length xs]"
      by (simp only: map_Suc_upt[symmetric] map_map o_def nth_Cons_Suc)
    also have "\<dots> = map (Pair x) (map (\<lambda>j. xs ! j) [0..<length xs])"
      by (simp add: o_def)
    finally show ?thesis by (simp only: map_nth)
  qed
  have b: "map (\<lambda>i. map (\<lambda>j. ((x # xs) ! i, (x # xs) ! j)) [Suc i..<Suc (length xs)])
             [Suc 0..<Suc (length xs)] =
           map (\<lambda>i. map (\<lambda>j. (xs ! i, xs ! j)) [Suc i..<length xs]) [0..<length xs]"
    by (simp only: map_Suc_upt[symmetric] map_map o_def nth_Cons_Suc)
  have "[0..<length (x # xs)] = 0 # [Suc 0..<Suc (length xs)]"
    by (simp add: upt_rec)
  then show ?case
    by (simp only: list.map concat.simps pairs.simps a b Cons.IH nth_Cons_0 length_Cons)
qed

text \<open>
  Claim C2. For a list of \<open>n\<close> nodes \<open>forPairs\<close> calls the function
  \<open>n * (n - 1) div 2\<close> times: once for each pair of positions \<open>i < j\<close>, in that order.
  When the nodes of the list are distinct, every unordered pair of two of them is
  called exactly once. Reordering the list changes neither the number of calls nor how
  often any unordered pair is called. This holds for every callback: its calls are
  those the log records.
\<close>

theorem forPairs_each_pair_once:
  "length (calls elems) = length elems * (length elems - 1) div 2 \<and>
   calls elems =
     concat (map (\<lambda>i. map (\<lambda>j. (elems ! i, elems ! j)) [Suc i..<length elems])
       [0..<length elems]) \<and>
   (distinct elems \<longrightarrow>
      (\<forall>a\<in>set elems. \<forall>b\<in>set elems. a \<noteq> b \<longrightarrow> callsOn elems a b = 1)) \<and>
   (\<forall>elems'. mset elems' = mset elems \<longrightarrow>
      length (calls elems') = length (calls elems) \<and>
      (\<forall>a b. callsOn elems' a b = callsOn elems a b)) \<and>
   forPairs elems fn s = fold (\<lambda>(a, b). fn a b) (calls elems) s"
proof (intro conjI allI impI ballI)
  show "length (calls elems) = length elems * (length elems - 1) div 2"
    by (simp only: calls_pairs length_pairs)
  show "calls elems =
     concat (map (\<lambda>i. map (\<lambda>j. (elems ! i, elems ! j)) [Suc i..<length elems])
       [0..<length elems])"
    by (simp only: calls_pairs) (rule pairs_index)
  show "callsOn elems a b = 1"
    if "distinct elems" "a \<in> set elems" "b \<in> set elems" "a \<noteq> b" for a b
    using that by (rule callsOn_distinct)
  show "length (calls elems') = length (calls elems)" if "mset elems' = mset elems" for elems'
    using mset_eq_length [OF that] by (simp only: calls_pairs length_pairs)
  show "callsOn elems' a b = callsOn elems a b" if "mset elems' = mset elems" for elems' a b
    using that by (rule callsOn_mset)
  show "forPairs elems fn s = fold (\<lambda>(a, b). fn a b) (calls elems) s"
    by (simp only: calls_pairs forPairs_fold)
qed

theorem forPairs_each_pair_once_witness:
  "length (calls [1, 2, 3 :: nat]) = 3 \<and>
   calls [1, 2, 3 :: nat] = [(1, 2), (1, 3), (2, 3)] \<and>
   callsOn [1, 2, 3 :: nat] 1 3 = 1 \<and>
   callsOn [3, 1, 2 :: nat] 1 3 = callsOn [1, 2, 3 :: nat] 1 3 \<and>
   forPairs [1, 2, 3 :: nat] (\<lambda>a b t. t + a * b) 0 = 1 * 2 + 1 * 3 + 2 * 3"
proof -
  note th = forPairs_each_pair_once [where elems = "[1, 2, 3 :: nat]"
      and fn = "\<lambda>a b t. t + a * b" and s = "0 :: nat"]
  have c: "calls [1, 2, 3 :: nat] = [(1, 2), (1, 3), (2, 3)]"
    using th by (simp add: eval_nat_numeral upt_conv_Cons del: upt_Suc)
  have m: "mset [3, 1, 2 :: nat] = mset [1, 2, 3]" by simp
  from th have "callsOn [3, 1, 2 :: nat] 1 3 = callsOn [1, 2, 3 :: nat] 1 3"
    using m by blast
  moreover from th have "callsOn [1, 2, 3 :: nat] 1 3 = 1" by simp
  moreover from th have "forPairs [1, 2, 3 :: nat] (\<lambda>a b t. t + a * b) 0 = 1 * 2 + 1 * 3 + 2 * 3"
    by (simp add: c)
  ultimately show ?thesis using c by simp
qed

section \<open>The polling loop and the callback\<close>

lemma keys_update: "keys (AList.update k v hs) = insert k (keys hs)"
  by (simp add: keys_def AList.dom_update)

lemma pollNode_unchanged:
  "splitSize (pollNode n c) = splitSize c"
  "gauge (pollNode n c) = gauge c"
  "headList (pollNode n c) = headList c"
  by (simp_all add: pollNode_def Let_def split: option.splits)

lemma pollNode_nodes:
  "nodes (pollNode n c) =
     nodes c @ [SetStatus n (if UpdateLatest n = None then NodeStatusOK else NodeStatusUnreachable)]"
  by (simp add: pollNode_def Let_def split: option.splits)

lemma pollNode_active:
  "activeNodes (pollNode n c) =
     activeNodes c @ (if UpdateLatest n = None then [SetStatus n NodeStatusOK] else [])"
  by (simp add: pollNode_def Let_def split: option.splits)

lemma HeadNum_SetStatus [simp]: "HeadNum (SetStatus n s) = HeadNum n"
  by (simp add: SetStatus_def)

lemma UpdateLatest_SetStatus [simp]: "UpdateLatest (SetStatus n s) = UpdateLatest n"
  by (simp add: SetStatus_def)

lemma BlockAt_SetStatus [simp]: "BlockAt (SetStatus n s) = BlockAt n"
  by (simp add: SetStatus_def)

lemma HashAt_SetStatus [simp]: "HashAt (SetStatus n s) = HashAt n"
  by (simp add: SetStatus_def)

lemma status_SetStatus [simp]: "status (SetStatus n s) = s"
  by (simp add: SetStatus_def)

lemma pollNode_keys:
  "keys (heads (pollNode n c)) =
     keys (heads c) \<union> (if UpdateLatest n = None then {HeadNum n} else {})"
  by (simp add: pollNode_def Let_def keys_update split: option.splits)

lemma pollNodes_nodes:
  "nodes (pollNodes ns c) =
     nodes c @ map (\<lambda>n. SetStatus n (if UpdateLatest n = None then NodeStatusOK
                                      else NodeStatusUnreachable)) ns"
  by (induction ns arbitrary: c) (simp_all add: pollNode_nodes)

lemma pollNodes_active:
  "activeNodes (pollNodes ns c) =
     activeNodes c @ map (\<lambda>n. SetStatus n NodeStatusOK) (filter (\<lambda>n. UpdateLatest n = None) ns)"
  by (induction ns arbitrary: c) (simp_all add: pollNode_active)

lemma pollNodes_keys:
  "keys (heads (pollNodes ns c)) =
     keys (heads c) \<union> HeadNum ` {n \<in> set ns. UpdateLatest n = None}"
  by (induction ns arbitrary: c) (auto simp: pollNode_keys)

lemma pollNodes_splitSize: "splitSize (pollNodes ns c) = splitSize c"
  by (induction ns arbitrary: c) (simp_all add: pollNode_unchanged)

lemma pollNode_prior: "pollNode (n\<lparr>status := p\<rparr>) c = pollNode n c"
  by (simp add: pollNode_def SetStatus_def Let_def split: option.splits)

lemma pollNodes_prior: "pollNodes (map (\<lambda>n. n\<lparr>status := prior n\<rparr>) ns) c = pollNodes ns c"
  by (induction ns arbitrary: c) (simp_all add: pollNode_prior)

lemma checkPair_missing: "missingBlock a b \<Longrightarrow> checkPair a b c = c"
  by (auto simp: missingBlock_def checkPair_def Let_def split: option.splits)

lemma checkPair_not_diverging: "\<not> diverging a b \<Longrightarrow> checkPair a b c = c"
  by (auto simp: diverging_def checkPair_def Let_def split: option.splits)

lemma checkPair_diverging:
  "diverging a b \<Longrightarrow> checkPair a b c =
     c\<lparr>splitSize := max (splitSize c) (splitLength a b),
       heads := (if splitHeight a b > 0
                 then AList.update (uint64_of_int (splitHeight a b - 1)) True
                        (AList.update (uint64_of_int (splitHeight a b)) True (heads c))
                 else AList.update (uint64_of_int (splitHeight a b)) True (heads c))\<rparr>"
  by (auto simp: diverging_def checkPair_def Let_def splitHeight_def splitLength_def max_def
      split: option.splits)

lemma checkPair_fields:
  "nodes (checkPair a b c) = nodes c"
  "activeNodes (checkPair a b c) = activeNodes c"
  "gauge (checkPair a b c) = gauge c"
  "headList (checkPair a b c) = headList c"
  by (cases "diverging a b"; simp add: checkPair_diverging checkPair_not_diverging)+

lemma checkPair_splitSize:
  "splitSize (checkPair a b c) =
     (if diverging a b then max (splitSize c) (splitLength a b) else splitSize c)"
  by (simp add: checkPair_diverging checkPair_not_diverging)

lemma checkPair_keys: "keys (heads (checkPair a b c)) = keys (heads c) \<union> boundary a b"
  by (cases "diverging a b")
     (auto simp: checkPair_diverging checkPair_not_diverging boundary_def keys_update)

lemma fold_checkPair_fields:
  "nodes (fold (\<lambda>(a, b). checkPair a b) ps c) = nodes c"
  "activeNodes (fold (\<lambda>(a, b). checkPair a b) ps c) = activeNodes c"
  by (induction ps arbitrary: c; simp add: checkPair_fields split_def)+

lemma fold_checkPair_keys:
  "keys (heads (fold (\<lambda>(a, b). checkPair a b) ps c)) =
     keys (heads c) \<union> (\<Union>(a, b)\<in>set ps. boundary a b)"
  by (induction ps arbitrary: c) (auto simp: checkPair_keys)

lemma fold_checkPair_splitSize:
  "splitSize (fold (\<lambda>(a, b). checkPair a b) ps c) =
     fold max (map (\<lambda>(a, b). splitLength a b) (filter (\<lambda>(a, b). diverging a b) ps))
       (splitSize c)"
  by (induction ps arbitrary: c) (auto simp: checkPair_splitSize max.commute)

lemma fold_checkPair_skip:
  "fold (\<lambda>(a, b). checkPair a b) ps c =
     fold (\<lambda>(a, b). checkPair a b) (filter (\<lambda>(a, b). \<not> missingBlock a b) ps) c"
  by (induction ps arbitrary: c) (auto simp: checkPair_missing)

lemma doChecks_nodes:
  "nodes (doChecks ns) =
     map (\<lambda>n. SetStatus n (if UpdateLatest n = None then NodeStatusOK
                             else NodeStatusUnreachable)) ns"
  by (simp add: doChecks_def Let_def forPairs_fold fold_checkPair_fields pollNodes_nodes
      newCycle_def)

lemma doChecks_active:
  "activeNodes (doChecks ns) =
     map (\<lambda>n. SetStatus n NodeStatusOK) (filter (\<lambda>n. UpdateLatest n = None) ns)"
  by (simp add: doChecks_def Let_def forPairs_fold fold_checkPair_fields pollNodes_active
      newCycle_def)

lemma keys_Nil [simp]: "keys [] = {}"
  by (simp add: keys_def)

lemma doChecks_heads:
  "heads (doChecks ns) =
     heads (fold (\<lambda>(a, b). checkPair a b) (pairs (activeNodes (doChecks ns)))
       (pollNodes ns newCycle))"
  by (simp add: doChecks_def Let_def forPairs_fold fold_checkPair_fields)

lemma doChecks_keys:
  "keys (heads (doChecks ns)) =
     HeadNum ` set (activeNodes (doChecks ns)) \<union>
     (\<Union>(a, b)\<in>set (pairs (activeNodes (doChecks ns))). boundary a b)"
proof -
  have "HeadNum ` {n \<in> set ns. UpdateLatest n = None} =
        HeadNum ` set (activeNodes (doChecks ns))"
    by (auto simp: doChecks_active image_iff)
  moreover have "keys (heads newCycle) = {}"
    by (simp add: newCycle_def)
  ultimately show ?thesis
    by (simp only: doChecks_heads fold_checkPair_keys pollNodes_keys Un_empty_left)
qed

lemma doChecks_gauge:
  "gauge (doChecks ns) =
     fold max (map (\<lambda>(a, b). splitLength a b)
       (filter (\<lambda>(a, b). diverging a b) (pairs (activeNodes (doChecks ns))))) 0"
  by (simp add: doChecks_def Let_def forPairs_fold fold_checkPair_fields
      fold_checkPair_splitSize pollNodes_splitSize pollNodes_active newCycle_def)

lemma doChecks_headList: "headList (doChecks ns) = headList_of (heads (doChecks ns))"
  by (simp add: doChecks_def Let_def)

lemma doChecks_prior: "doChecks (map (\<lambda>n. n\<lparr>status := prior n\<rparr>) ns) = doChecks ns"
  by (simp add: doChecks_def pollNodes_prior)

section \<open>Polling decides status and membership\<close>

lemma set_pairs: "(a, b) \<in> set (pairs xs) \<Longrightarrow> a \<in> set xs \<and> b \<in> set xs"
  by (induction xs) auto

text \<open>
  Claim C6. In a cycle over the nodes \<open>ns\<close>, a node whose \<open>UpdateLatest\<close> fails is
  left with status \<open>NodeStatusUnreachable\<close> and is not active: every active node, and
  so every node of a compared pair, has a poll that succeeded, and the polling loop
  records the heads of those nodes only. A node whose \<open>UpdateLatest\<close> succeeds is left
  with status \<open>NodeStatusOK\<close>, is active, and its head height is in \<open>heads\<close>. The
  result of the cycle does not depend on the statuses the nodes had before.
\<close>

theorem poll_outcome_decides_status:
  "length (nodes (doChecks ns)) = length ns \<and>
   (\<forall>i<length ns.
      (UpdateLatest (ns ! i) \<noteq> None \<longrightarrow>
         status (nodes (doChecks ns) ! i) = NodeStatusUnreachable \<and>
         nodes (doChecks ns) ! i = SetStatus (ns ! i) NodeStatusUnreachable) \<and>
      (UpdateLatest (ns ! i) = None \<longrightarrow>
         status (nodes (doChecks ns) ! i) = NodeStatusOK \<and>
         nodes (doChecks ns) ! i = SetStatus (ns ! i) NodeStatusOK \<and>
         nodes (doChecks ns) ! i \<in> set (activeNodes (doChecks ns)) \<and>
         HeadNum (ns ! i) \<in> keys (heads (doChecks ns)))) \<and>
   activeNodes (doChecks ns) =
     map (\<lambda>n. SetStatus n NodeStatusOK) (filter (\<lambda>n. UpdateLatest n = None) ns) \<and>
   (\<forall>n\<in>set (activeNodes (doChecks ns)). UpdateLatest n = None) \<and>
   (\<forall>(a, b)\<in>set (calls (activeNodes (doChecks ns))).
      UpdateLatest a = None \<and> UpdateLatest b = None) \<and>
   keys (heads (pollNodes ns newCycle)) = HeadNum ` {n \<in> set ns. UpdateLatest n = None} \<and>
   (\<forall>prior. doChecks (map (\<lambda>n. n\<lparr>status := prior n\<rparr>) ns) = doChecks ns)"
proof (intro conjI allI impI ballI)
  show "length (nodes (doChecks ns)) = length ns"
    by (simp add: doChecks_nodes)
  show act: "activeNodes (doChecks ns) =
      map (\<lambda>n. SetStatus n NodeStatusOK) (filter (\<lambda>n. UpdateLatest n = None) ns)"
    by (rule doChecks_active)
  show ok: "UpdateLatest n = None" if "n \<in> set (activeNodes (doChecks ns))" for n
    using that by (auto simp: doChecks_active)
  show "case p of (a, b) \<Rightarrow> UpdateLatest a = None \<and> UpdateLatest b = None"
    if "p \<in> set (calls (activeNodes (doChecks ns)))" for p
  proof -
    obtain a b where p: "p = (a, b)" by (cases p) auto
    from that have "(a, b) \<in> set (pairs (activeNodes (doChecks ns)))"
      by (simp only: p calls_pairs)
    then have "a \<in> set (activeNodes (doChecks ns)) \<and> b \<in> set (activeNodes (doChecks ns))"
      by (rule set_pairs)
    with ok show ?thesis by (simp add: p)
  qed
  show "keys (heads (pollNodes ns newCycle)) = HeadNum ` {n \<in> set ns. UpdateLatest n = None}"
    by (simp add: pollNodes_keys newCycle_def)
  show "doChecks (map (\<lambda>n. n\<lparr>status := prior n\<rparr>) ns) = doChecks ns" for prior
    by (rule doChecks_prior)
next
  fix i assume i: "i < length ns"
  { assume f: "UpdateLatest (ns ! i) \<noteq> None"
    show "nodes (doChecks ns) ! i = SetStatus (ns ! i) NodeStatusUnreachable"
      using i f by (auto simp: doChecks_nodes)
    then show "status (nodes (doChecks ns) ! i) = NodeStatusUnreachable"
      by simp }
  { assume s: "UpdateLatest (ns ! i) = None"
    show e: "nodes (doChecks ns) ! i = SetStatus (ns ! i) NodeStatusOK"
      using i s by (simp add: doChecks_nodes)
    then show "status (nodes (doChecks ns) ! i) = NodeStatusOK"
      by simp
    have m: "ns ! i \<in> {n \<in> set ns. UpdateLatest n = None}"
      using i s by simp
    then show "nodes (doChecks ns) ! i \<in> set (activeNodes (doChecks ns))"
      unfolding e by (simp add: doChecks_active)
    have "HeadNum (SetStatus (ns ! i) NodeStatusOK) \<in> HeadNum ` set (activeNodes (doChecks ns))"
      using m by (intro imageI) (simp add: doChecks_active)
    then show "HeadNum (ns ! i) \<in> keys (heads (doChecks ns))"
      by (simp add: doChecks_keys) }
qed

lemma nodeA_fields [simp]:
  "UpdateLatest nodeA = None" "HeadNum nodeA = 100" "HashAt nodeA = chainA"
  "BlockAt nodeA = blockOf chainA" "status nodeA = NodeStatusUnreachable"
  by (simp_all add: nodeA_def mkNode_def)

lemma nodeDown_fields [simp]:
  "UpdateLatest nodeDown = Some ''timeout''" "HeadNum nodeDown = 7"
  "status nodeDown = NodeStatusOK"
  by (simp_all add: nodeDown_def mkNode_def)

theorem poll_outcome_decides_status_witness:
  "status nodeA = NodeStatusUnreachable \<and> UpdateLatest nodeA = None \<and>
   status nodeDown = NodeStatusOK \<and> UpdateLatest nodeDown \<noteq> None \<and>
   status (nodes (doChecks [nodeA, nodeDown]) ! 0) = NodeStatusOK \<and>
   status (nodes (doChecks [nodeA, nodeDown]) ! 1) = NodeStatusUnreachable \<and>
   activeNodes (doChecks [nodeA, nodeDown]) = [SetStatus nodeA NodeStatusOK] \<and>
   HeadNum nodeA \<in> keys (heads (doChecks [nodeA, nodeDown])) \<and>
   keys (heads (pollNodes [nodeA, nodeDown] newCycle)) = {100}"
proof -
  note th = poll_outcome_decides_status [of "[nodeA, nodeDown]"]
  note per_node = th [THEN conjunct2, THEN conjunct1, rule_format]
  note act = th [THEN conjunct2, THEN conjunct2, THEN conjunct1]
  note polled = th [THEN conjunct2, THEN conjunct2, THEN conjunct2, THEN conjunct2,
      THEN conjunct2, THEN conjunct1]
  have a: "status (nodes (doChecks [nodeA, nodeDown]) ! 0) = NodeStatusOK"
    and b: "HeadNum nodeA \<in> keys (heads (doChecks [nodeA, nodeDown]))"
    using per_node [of 0] by simp_all
  have c: "status (nodes (doChecks [nodeA, nodeDown]) ! 1) = NodeStatusUnreachable"
    using per_node [of 1] by simp
  have d: "activeNodes (doChecks [nodeA, nodeDown]) = [SetStatus nodeA NodeStatusOK]"
    using act by simp
  have "{n \<in> set [nodeA, nodeDown]. UpdateLatest n = None} = {nodeA}"
    by auto
  then have e: "keys (heads (pollNodes [nodeA, nodeDown] newCycle)) = {100}"
    by (simp only: polled) simp
  show ?thesis using a b c d e by simp
qed

section \<open>The heads of interest\<close>

lemma update_True_values: "list_all snd hs \<Longrightarrow> list_all snd (AList.update k True hs)"
  by (induction hs) auto

lemma pollNode_values: "list_all snd (heads c) \<Longrightarrow> list_all snd (heads (pollNode n c))"
  by (simp add: pollNode_def Let_def update_True_values split: option.splits)

lemma pollNodes_values: "list_all snd (heads c) \<Longrightarrow> list_all snd (heads (pollNodes ns c))"
  by (induction ns arbitrary: c) (simp_all add: pollNode_values)

lemma checkPair_values: "list_all snd (heads c) \<Longrightarrow> list_all snd (heads (checkPair a b c))"
  by (cases "diverging a b")
     (simp_all add: checkPair_diverging checkPair_not_diverging update_True_values)

lemma fold_checkPair_values:
  "list_all snd (heads c) \<Longrightarrow> list_all snd (heads (fold (\<lambda>(a, b). checkPair a b) ps c))"
  by (induction ps arbitrary: c) (simp_all add: checkPair_values split_def)

lemma doChecks_values: "list_all snd (heads (doChecks ns))"
  unfolding doChecks_heads
  by (rule fold_checkPair_values, rule pollNodes_values) (simp add: newCycle_def)

lemma pollNode_distinct:
  "distinct (map fst (heads c)) \<Longrightarrow> distinct (map fst (heads (pollNode n c)))"
  by (simp add: pollNode_def Let_def distinct_update split: option.splits)

lemma pollNodes_distinct:
  "distinct (map fst (heads c)) \<Longrightarrow> distinct (map fst (heads (pollNodes ns c)))"
  by (induction ns arbitrary: c) (simp_all add: pollNode_distinct)

lemma checkPair_distinct:
  "distinct (map fst (heads c)) \<Longrightarrow> distinct (map fst (heads (checkPair a b c)))"
  by (cases "diverging a b")
     (simp_all add: checkPair_diverging checkPair_not_diverging distinct_update)

lemma fold_checkPair_distinct:
  "distinct (map fst (heads c)) \<Longrightarrow>
   distinct (map fst (heads (fold (\<lambda>(a, b). checkPair a b) ps c)))"
  by (induction ps arbitrary: c) (simp_all add: checkPair_distinct split_def)

lemma doChecks_distinct: "distinct (map fst (heads (doChecks ns)))"
  unfolding doChecks_heads
  by (rule fold_checkPair_distinct, rule pollNodes_distinct) (simp add: newCycle_def)

lemma doChecks_map_of:
  assumes "k \<in> keys (heads (doChecks ns))"
  shows "map_of (heads (doChecks ns)) k = Some True"
proof -
  from assms obtain v where m: "(k, v) \<in> set (heads (doChecks ns))"
    by (auto simp: keys_def)
  with doChecks_values [of ns] have "v" by (auto simp: list_all_iff)
  with m doChecks_distinct [of ns] show ?thesis by simp
qed

lemma nodeB_fields [simp]:
  "UpdateLatest nodeB = None" "HeadNum nodeB = 100" "HashAt nodeB = chainB"
  "BlockAt nodeB = blockOf chainB"
  by (simp_all add: nodeB_def mkNode_def)

lemma nodeC_fields [simp]:
  "UpdateLatest nodeC = None" "HeadNum nodeC = 98" "HashAt nodeC = chainA"
  "BlockAt nodeC = blockOf chainA"
  by (simp_all add: nodeC_def mkNode_def)

lemma nodeGap_fields [simp]:
  "UpdateLatest nodeGap = None" "HeadNum nodeGap = 100" "HashAt nodeGap = chainB"
  "BlockAt nodeGap = (\<lambda>n. None)"
  by (simp_all add: nodeGap_def mkNode_def)

lemma int_of_uint64_numeral [simp]: "int_of_uint64 100 = 100" "int_of_uint64 98 = 98"
  by (simp_all add: int_of_uint64_def)

lemma uint64_of_int_numeral [simp]: "uint64_of_int (numeral w) = numeral w"
  by (simp add: uint64_of_int_def)

lemma findSplit_chainAB:
  assumes "HashAt a = chainA" and "HashAt b = chainB" and "50 \<le> N" and "N \<le> 100"
  shows "findSplit N a b = 50" and "findSplit N b a = 50"
proof -
  have "\<forall>i. 0 \<le> i \<and> i < 50 \<longrightarrow> chainA (uint64_of_int i) = chainB (uint64_of_int i)"
    by (simp add: chainAB_agree)
  moreover have "\<forall>i. 50 \<le> i \<and> i < N \<longrightarrow> chainA (uint64_of_int i) \<noteq> chainB (uint64_of_int i)"
    using assms by (simp add: chainAB_agree)
  ultimately show "findSplit N a b = 50" and "findSplit N b a = 50"
    using assms by (auto intro!: findSplit_eq simp: eq_commute)
qed

lemma diverging_AB: "diverging (SetStatus nodeA s) (SetStatus nodeB t)"
  by (simp add: diverging_def commonHorizon_def blockOf_def chainA_def chainB_def)

lemma diverging_BC: "diverging (SetStatus nodeB s) (SetStatus nodeC t)"
  by (simp add: diverging_def commonHorizon_def blockOf_def chainA_def chainB_def)

lemma not_diverging_AC: "\<not> diverging (SetStatus nodeA s) (SetStatus nodeC t)"
  by (simp add: diverging_def commonHorizon_def blockOf_def chainA_def)

lemma splitHeight_AB: "splitHeight (SetStatus nodeA s) (SetStatus nodeB t) = 50"
  by (simp add: splitHeight_def commonHorizon_def findSplit_chainAB)

lemma splitHeight_BC: "splitHeight (SetStatus nodeB s) (SetStatus nodeC t) = 50"
  by (simp add: splitHeight_def commonHorizon_def findSplit_chainAB)

lemma active_ABC:
  "activeNodes (doChecks [nodeA, nodeB, nodeC]) =
     [SetStatus nodeA NodeStatusOK, SetStatus nodeB NodeStatusOK, SetStatus nodeC NodeStatusOK]"
  by (simp add: doChecks_active)

lemma boundary_ABC:
  "boundary (SetStatus nodeA s) (SetStatus nodeB t) = {50, 49}"
  "boundary (SetStatus nodeB s) (SetStatus nodeC t) = {50, 49}"
  "boundary (SetStatus nodeA s) (SetStatus nodeC t) = {}"
  by (simp_all add: boundary_def diverging_AB diverging_BC not_diverging_AC splitHeight_AB
      splitHeight_BC)

text \<open>
  Claim C3. After the pairwise phase of a cycle, \<open>heads\<close> holds the head height of
  every active node and, for every compared pair that the callback finds diverging
  (both blocks at the common horizon present, with different hashes), the split height,
  and the height below it when the split height is positive. It holds nothing else, and
  every key is stored with the value \<open>true\<close>.
\<close>

theorem heads_of_interest_contents:
  "(\<forall>n\<in>set (activeNodes (doChecks ns)). HeadNum n \<in> keys (heads (doChecks ns))) \<and>
   (\<forall>(a, b)\<in>set (calls (activeNodes (doChecks ns))). diverging a b \<longrightarrow>
      uint64_of_int (splitHeight a b) \<in> keys (heads (doChecks ns)) \<and>
      (0 < splitHeight a b \<longrightarrow>
         uint64_of_int (splitHeight a b - 1) \<in> keys (heads (doChecks ns)))) \<and>
   keys (heads (doChecks ns)) =
     HeadNum ` set (activeNodes (doChecks ns)) \<union>
     (\<Union>(a, b)\<in>set (calls (activeNodes (doChecks ns))). boundary a b) \<and>
   (\<forall>k\<in>keys (heads (doChecks ns)). map_of (heads (doChecks ns)) k = Some True)"
proof (intro conjI ballI)
  show k: "keys (heads (doChecks ns)) =
     HeadNum ` set (activeNodes (doChecks ns)) \<union>
     (\<Union>(a, b)\<in>set (calls (activeNodes (doChecks ns))). boundary a b)"
    by (simp only: calls_pairs) (rule doChecks_keys)
  show "HeadNum n \<in> keys (heads (doChecks ns))" if "n \<in> set (activeNodes (doChecks ns))" for n
    using that by (simp add: doChecks_keys)
  show "map_of (heads (doChecks ns)) k = Some True" if "k \<in> keys (heads (doChecks ns))" for k
    using that by (rule doChecks_map_of)
  show "case p of (a, b) \<Rightarrow> diverging a b \<longrightarrow>
      uint64_of_int (splitHeight a b) \<in> keys (heads (doChecks ns)) \<and>
      (0 < splitHeight a b \<longrightarrow>
         uint64_of_int (splitHeight a b - 1) \<in> keys (heads (doChecks ns)))"
    if "p \<in> set (calls (activeNodes (doChecks ns)))" for p
  proof -
    obtain a b where p: "p = (a, b)" by (cases p) auto
    have "boundary a b \<subseteq> keys (heads (doChecks ns))"
      using that unfolding k p by blast
    then show ?thesis
      by (auto simp: p boundary_def split: if_splits)
  qed
qed

theorem heads_of_interest_contents_witness:
  "diverging (SetStatus nodeA NodeStatusOK) (SetStatus nodeB NodeStatusOK) \<and>
   splitHeight (SetStatus nodeA NodeStatusOK) (SetStatus nodeB NodeStatusOK) = 50 \<and>
   HeadNum nodeC \<in> keys (heads (doChecks [nodeA, nodeB, nodeC])) \<and>
   50 \<in> keys (heads (doChecks [nodeA, nodeB, nodeC])) \<and>
   49 \<in> keys (heads (doChecks [nodeA, nodeB, nodeC])) \<and>
   keys (heads (doChecks [nodeA, nodeB, nodeC])) = {100, 98, 50, 49} \<and>
   map_of (heads (doChecks [nodeA, nodeB, nodeC])) 49 = Some True"
proof -
  note th = heads_of_interest_contents [of "[nodeA, nodeB, nodeC]"]
  note own = th [THEN conjunct1, rule_format]
  note split = th [THEN conjunct2, THEN conjunct1, rule_format]
  note all = th [THEN conjunct2, THEN conjunct2, THEN conjunct1]
  note vals = th [THEN conjunct2, THEN conjunct2, THEN conjunct2, rule_format]
  have c: "HeadNum nodeC \<in> keys (heads (doChecks [nodeA, nodeB, nodeC]))"
    using own [of "SetStatus nodeC NodeStatusOK"] by (simp add: active_ABC)
  have "(SetStatus nodeA NodeStatusOK, SetStatus nodeB NodeStatusOK)
      \<in> set (calls (activeNodes (doChecks [nodeA, nodeB, nodeC])))"
    by (simp add: active_ABC calls_pairs)
  from split [OF this] have s: "50 \<in> keys (heads (doChecks [nodeA, nodeB, nodeC]))"
    "49 \<in> keys (heads (doChecks [nodeA, nodeB, nodeC]))"
    by (simp_all add: diverging_AB splitHeight_AB)
  have k: "keys (heads (doChecks [nodeA, nodeB, nodeC])) = {100, 98, 50, 49}"
    unfolding all by (auto simp: active_ABC calls_pairs boundary_ABC)
  show ?thesis
    using c s k vals [OF s(2)] by (simp add: diverging_AB splitHeight_AB)
qed

section \<open>Pairs with a missing block\<close>

lemma missing_Gap: "missingBlock a (SetStatus nodeGap s)" "missingBlock (SetStatus nodeGap s) b"
  "missingBlock a nodeGap" "missingBlock nodeGap b"
  by (simp_all add: missingBlock_def)

lemma not_missing_AB: "\<not> missingBlock nodeA nodeB"
  by (simp add: missingBlock_def blockOf_def)

text \<open>
  Claim C7. When \<open>BlockAt\<close> at the common horizon returns \<open>nil\<close> for either node of a
  pair, the callback returns with the state as it was: \<open>splitSize\<close> and \<open>heads\<close> are
  untouched and the pair is not a diverging one. The cycle's result is that of running
  the callback on the remaining pairs alone, in the same order.
\<close>

theorem missing_block_abandons_pair:
  "(missingBlock a b \<longrightarrow> checkPair a b c = c \<and> \<not> diverging a b) \<and>
   forPairs elems checkPair c =
     fold (\<lambda>(x, y). checkPair x y) (filter (\<lambda>(x, y). \<not> missingBlock x y) (calls elems)) c"
proof (intro conjI impI)
  show "checkPair a b c = c" if "missingBlock a b"
    using that by (rule checkPair_missing)
  show "\<not> diverging a b" if "missingBlock a b"
    using that by (auto simp: missingBlock_def diverging_def split: option.splits)
  show "forPairs elems checkPair c =
     fold (\<lambda>(x, y). checkPair x y) (filter (\<lambda>(x, y). \<not> missingBlock x y) (calls elems)) c"
    unfolding calls_pairs forPairs_fold by (rule fold_checkPair_skip)
qed

theorem missing_block_abandons_pair_witness:
  "missingBlock nodeA nodeGap \<and> checkPair nodeA nodeGap newCycle = newCycle \<and>
   forPairs [nodeA, nodeGap, nodeB] checkPair newCycle = checkPair nodeA nodeB newCycle"
proof -
  have c: "calls [nodeA, nodeGap, nodeB] = [(nodeA, nodeGap), (nodeA, nodeB), (nodeGap, nodeB)]"
    by (simp add: calls_pairs)
  show ?thesis
    using missing_block_abandons_pair [of nodeA nodeGap newCycle "[nodeA, nodeGap, nodeB]"]
    by (simp add: c missing_Gap not_missing_AB)
qed

section \<open>Go's integer conversions\<close>

lemma int_of_uint64_small:
  "h < 9223372036854775808 \<Longrightarrow> int_of_uint64 h = uint h"
proof -
  assume "h < 9223372036854775808"
  then have u: "uint h < 2 ^ 63" by (simp add: word_less_def)
  have "sint h = signed_take_bit 63 (uint h)" by (simp add: sint_uint)
  also have "\<dots> = uint h"
    using u by (intro signed_take_bit_int_eq_self) (auto intro: order_trans [of _ 0])
  finally show ?thesis by (simp add: int_of_uint64_def)
qed

lemma int_of_uint64_range: "- (2 ^ 63) \<le> int_of_uint64 h \<and> int_of_uint64 h < 2 ^ 63"
  using sint_ge [of h] sint_lt [of h] by (simp add: int_of_uint64_def)

lemma uint64_roundtrip: "uint64_of_int (int_of_uint64 h) = h"
  by (simp add: int_of_uint64_def uint64_of_int_def)

lemma int_of_uint64_inj: "inj int_of_uint64"
  by (rule inj_on_inverseI [where g = uint64_of_int]) (rule uint64_roundtrip)

lemma midpoint_no_overflow:
  "0 \<le> i \<Longrightarrow> i < j \<Longrightarrow> j < 2 ^ 63 \<Longrightarrow>
   sint (drop_bit 1 (word_of_int (i + j) :: 64 word)) = (i + j) div 2"
proof -
  assume a: "0 \<le> i" "i < j" "j < 2 ^ 63"
  define w :: "64 word" where "w = word_of_int (i + j)"
  have s: "0 \<le> i + j" "i + j < 2 ^ 64" using a by auto
  have "uint w = (i + j) mod 2 ^ LENGTH(64)"
    unfolding w_def by (rule uint_word_of_int)
  also have "\<dots> = i + j"
    using s by simp
  finally have u: "uint w = i + j" .
  have "uint (drop_bit 1 w) = drop_bit 1 (take_bit LENGTH(64) (uint w))"
    by (rule unsigned_drop_bit_eq)
  also have "\<dots> = (i + j) div 2"
    using s by (simp add: u take_bit_int_eq_self drop_bit_eq_div)
  finally have d: "uint (drop_bit 1 w) = (i + j) div 2" .
  have l: "(i + j) div 2 < 2 ^ 63" "0 \<le> (i + j) div 2" using s by auto
  have "sint (drop_bit 1 w) = signed_take_bit 63 (uint (drop_bit 1 w))"
    by (simp add: sint_uint)
  also have "\<dots> = (i + j) div 2"
    unfolding d using l by (intro signed_take_bit_int_eq_self) (auto intro: order_trans [of _ 0])
  finally show ?thesis by (simp only: w_def)
qed

section \<open>The split size\<close>

lemma int_of_uint64_small':
  "h < 2 ^ 63 \<Longrightarrow> int_of_uint64 h = uint h"
  using int_of_uint64_small [of h] by simp

lemma fold_max_Max: "fold max xs (a :: int) = Max (insert a (set xs))"
  using Max.set_eq_fold [of a xs] by simp

lemma fold_max_nonneg:
  assumes "\<forall>x\<in>set xs. (0 :: int) \<le> x"
  shows "fold max xs 0 = (if xs = [] then 0 else Max (set xs))"
proof (cases "xs = []")
  case True
  then show ?thesis by simp
next
  case False
  then have "Max (insert 0 (set xs)) = max 0 (Max (set xs))"
    by simp
  moreover have "0 \<le> Max (set xs)"
  proof -
    from False obtain x where x: "x \<in> set xs" by (cases xs) auto
    with assms have "0 \<le> x" by blast
    also have "x \<le> Max (set xs)" using x by simp
    finally show ?thesis .
  qed
  ultimately show ?thesis using False by (simp add: fold_max_Max)
qed

lemma commonHorizon_min: "commonHorizon a b = min (HeadNum a) (HeadNum b)"
  by (auto simp: commonHorizon_def min_def)

lemma splitHeight_bounds:
  assumes "commonHorizon a b < 2 ^ 63"
  shows "0 \<le> splitHeight a b \<and> splitHeight a b \<le> uint (commonHorizon a b)"
proof -
  have e: "int_of_uint64 (commonHorizon a b) = uint (commonHorizon a b)"
    using assms by (rule int_of_uint64_small')
  have "0 \<le> uint (commonHorizon a b)" by simp
  from Search_bounds [OF this] show ?thesis
    by (simp only: splitHeight_def findSplit_def e)
qed

lemma int_of_uint64_big:
  assumes "\<not> h < 2 ^ 63"
  shows "int_of_uint64 h < 0"
proof -
  from assms have u: "2 ^ 63 \<le> uint h" by (simp add: word_less_def)
  have "uint h < 2 ^ LENGTH(64)" by (rule uint_lt2p)
  then have l: "uint h < 2 ^ 64" by simp
  have "sint h = signed_take_bit 63 (uint h)" by (simp add: sint_uint)
  also have "\<dots> \<le> uint h - 2 ^ Suc 63" using u by (rule signed_take_bit_int_less_eq)
  also have "\<dots> < 0" using l by simp
  finally show ?thesis by (simp add: int_of_uint64_def)
qed

lemma splitHeight_overflow:
  "\<not> commonHorizon a b < 2 ^ 63 \<Longrightarrow> splitHeight a b = 0"
  using int_of_uint64_big [of "commonHorizon a b"]
  by (simp add: splitHeight_def findSplit_def Search_nonpos)

text \<open>
  \<open>int(highest) - split\<close> stays within 64 bits, so the subtraction of the callback
  and its conversion to \<open>int64\<close> are exact on the integers of the model.
\<close>

lemma splitLength_no_overflow:
  "- (2 ^ 63) \<le> splitLength a b \<and> splitLength a b < 2 ^ 63"
proof (cases "commonHorizon a b < 2 ^ 63")
  case True
  from splitHeight_bounds [OF True] int_of_uint64_small' [OF True]
    int_of_uint64_range [of "commonHorizon a b"]
  show ?thesis by (simp add: splitLength_def)
next
  case False
  from splitHeight_overflow [OF False] int_of_uint64_range [of "commonHorizon a b"]
  show ?thesis by (simp add: splitLength_def)
qed

lemma nodeX_fields [simp]:
  "UpdateLatest nodeX = None" "HeadNum nodeX = 9223372036854775808" "HashAt nodeX = chainA"
  "BlockAt nodeX = blockOf chainA"
  by (simp_all add: nodeX_def mkNode_def)

lemma nodeY_fields [simp]:
  "UpdateLatest nodeY = None" "HeadNum nodeY = 9223372036854775808" "HashAt nodeY = chainY"
  "BlockAt nodeY = blockOf chainY"
  by (simp_all add: nodeY_def mkNode_def)

lemma nodeF_fields [simp]:
  "UpdateLatest nodeF = None" "HeadNum nodeF = 5" "HashAt nodeF = chainA"
  "BlockAt nodeF = blockOf chainA"
  by (simp_all add: nodeF_def mkNode_def)

lemma divergingPairs_ABC:
  "divergingPairs (activeNodes (doChecks [nodeA, nodeB, nodeC])) =
     [(SetStatus nodeA NodeStatusOK, SetStatus nodeB NodeStatusOK),
      (SetStatus nodeB NodeStatusOK, SetStatus nodeC NodeStatusOK)]"
  by (simp add: divergingPairs_def active_ABC calls_pairs diverging_AB diverging_BC
      not_diverging_AC)

lemma commonHorizon_ABC:
  "commonHorizon (SetStatus nodeA s) (SetStatus nodeB t) = 100"
  "commonHorizon (SetStatus nodeB s) (SetStatus nodeC t) = 98"
  by (simp_all add: commonHorizon_def)

lemma gauge_fold:
  "gauge (doChecks ns) =
     fold max (map (\<lambda>(a, b). splitLength a b) (divergingPairs (activeNodes (doChecks ns)))) 0"
  by (simp only: divergingPairs_def calls_pairs) (rule doChecks_gauge)

lemma gauge_general:
  "gauge (doChecks ns) =
     Max (insert 0 (set (map (\<lambda>(a, b). splitLength a b)
       (divergingPairs (activeNodes (doChecks ns))))))"
  by (simp only: gauge_fold fold_max_Max)

text \<open>
  Claim C4, as amended. \<open>int(highest)\<close> is exact only for heights below \<open>2 ^ 63\<close>.
  For every diverging pair whose common horizon is below \<open>2 ^ 63\<close>: the common horizon
  is the minimum of the two head heights, the split length is the common horizon minus
  the split height, the split height lies between 0 and the common horizon, and the
  callback raises \<open>splitSize\<close> to that split length when it is larger. When the bound
  holds for every diverging pair of the cycle, the value given to the gauge is the
  maximum split length over the diverging pairs, or 0 when no pair diverges.
\<close>

theorem split_size_is_max_split_length:
  "(\<forall>(a, b)\<in>set (divergingPairs (activeNodes (doChecks ns))).
      commonHorizon a b < 2 ^ 63 \<longrightarrow>
        commonHorizon a b = min (HeadNum a) (HeadNum b) \<and>
        splitLength a b = uint (commonHorizon a b) - splitHeight a b \<and>
        0 \<le> splitHeight a b \<and> splitHeight a b \<le> uint (commonHorizon a b) \<and>
        (\<forall>c. splitSize (checkPair a b c) = max (splitSize c) (splitLength a b))) \<and>
   ((\<forall>(a, b)\<in>set (divergingPairs (activeNodes (doChecks ns))). commonHorizon a b < 2 ^ 63) \<longrightarrow>
      gauge (doChecks ns) =
        (if divergingPairs (activeNodes (doChecks ns)) = [] then 0
         else Max (set (map (\<lambda>(a, b). splitLength a b)
                 (divergingPairs (activeNodes (doChecks ns)))))))"
proof (intro conjI impI)
  let ?D = "divergingPairs (activeNodes (doChecks ns))"
  have pair: "commonHorizon a b = min (HeadNum a) (HeadNum b) \<and>
          splitLength a b = uint (commonHorizon a b) - splitHeight a b \<and>
          0 \<le> splitHeight a b \<and> splitHeight a b \<le> uint (commonHorizon a b) \<and>
          (\<forall>c. splitSize (checkPair a b c) = max (splitSize c) (splitLength a b))"
    if "(a, b) \<in> set ?D" and s: "commonHorizon a b < 2 ^ 63" for a b
  proof -
    from that have d: "diverging a b" by (simp add: divergingPairs_def)
    have "splitLength a b = uint (commonHorizon a b) - splitHeight a b"
      by (simp only: splitLength_def int_of_uint64_small' [OF s])
    moreover have "\<forall>c. splitSize (checkPair a b c) = max (splitSize c) (splitLength a b)"
      using d by (simp add: checkPair_splitSize)
    ultimately show ?thesis
      using splitHeight_bounds [OF s] commonHorizon_min [of a b] by blast
  qed
  then show "\<forall>(a, b)\<in>set ?D. commonHorizon a b < 2 ^ 63 \<longrightarrow>
          commonHorizon a b = min (HeadNum a) (HeadNum b) \<and>
          splitLength a b = uint (commonHorizon a b) - splitHeight a b \<and>
          0 \<le> splitHeight a b \<and> splitHeight a b \<le> uint (commonHorizon a b) \<and>
          (\<forall>c. splitSize (checkPair a b c) = max (splitSize c) (splitLength a b))"
    by blast
  assume h: "\<forall>(a, b)\<in>set ?D. commonHorizon a b < 2 ^ 63"
  have "0 \<le> splitLength a b" if "(a, b) \<in> set ?D" for a b
  proof -
    from that h have "commonHorizon a b < 2 ^ 63" by blast
    from pair [OF that this]
    have "splitLength a b = uint (commonHorizon a b) - splitHeight a b"
      and "splitHeight a b \<le> uint (commonHorizon a b)"
      by blast+
    then show ?thesis by linarith
  qed
  then have "\<forall>x\<in>set (map (\<lambda>(a, b). splitLength a b) ?D). 0 \<le> x"
    by auto
  from fold_max_nonneg [OF this]
  show "gauge (doChecks ns) =
        (if ?D = [] then 0 else Max (set (map (\<lambda>(a, b). splitLength a b) ?D)))"
    by (simp only: gauge_fold) simp
qed

theorem split_size_is_max_split_length_witness:
  "divergingPairs (activeNodes (doChecks [nodeA, nodeB, nodeC])) =
     [(SetStatus nodeA NodeStatusOK, SetStatus nodeB NodeStatusOK),
      (SetStatus nodeB NodeStatusOK, SetStatus nodeC NodeStatusOK)] \<and>
   commonHorizon (SetStatus nodeA NodeStatusOK) (SetStatus nodeB NodeStatusOK) = 100 \<and>
   splitHeight (SetStatus nodeA NodeStatusOK) (SetStatus nodeB NodeStatusOK) = 50 \<and>
   splitLength (SetStatus nodeA NodeStatusOK) (SetStatus nodeB NodeStatusOK) = 50 \<and>
   splitLength (SetStatus nodeB NodeStatusOK) (SetStatus nodeC NodeStatusOK) = 48 \<and>
   gauge (doChecks [nodeA, nodeB, nodeC]) = 50"
proof -
  note th = split_size_is_max_split_length [of "[nodeA, nodeB, nodeC]"]
  have fits: "\<forall>(a, b)\<in>set (divergingPairs (activeNodes (doChecks [nodeA, nodeB, nodeC]))).
      commonHorizon a b < 2 ^ 63"
    by (simp add: divergingPairs_ABC commonHorizon_ABC)
  from th [THEN conjunct1]
  have ab: "splitLength (SetStatus nodeA NodeStatusOK) (SetStatus nodeB NodeStatusOK) = 50"
    and bc: "splitLength (SetStatus nodeB NodeStatusOK) (SetStatus nodeC NodeStatusOK) = 48"
    by (simp_all add: divergingPairs_ABC commonHorizon_ABC splitHeight_AB splitHeight_BC)
  from th [THEN conjunct2, THEN mp, OF fits]
  have "gauge (doChecks [nodeA, nodeB, nodeC]) = 50"
    by (simp add: divergingPairs_ABC ab bc)
  then show ?thesis
    by (simp add: divergingPairs_ABC commonHorizon_ABC splitHeight_AB ab bc)
qed

lemma diverging_XY: "diverging (SetStatus nodeX s) (SetStatus nodeY t)"
  by (simp add: diverging_def commonHorizon_def blockOf_def chainA_def chainY_def)

lemma commonHorizon_XY:
  "commonHorizon (SetStatus nodeX s) (SetStatus nodeY t) = 9223372036854775808"
  by (simp add: commonHorizon_def)

lemma splitHeight_XY: "splitHeight (SetStatus nodeX s) (SetStatus nodeY t) = 0"
  by (rule splitHeight_overflow) (simp add: commonHorizon_XY)

lemma splitLength_XY:
  "splitLength (SetStatus nodeX s) (SetStatus nodeY t) = - 9223372036854775808"
  by (simp add: splitLength_def splitHeight_XY commonHorizon_XY int_of_uint64_def)

text \<open>
  Two nodes with head \<open>2 ^ 63\<close> and different hashes: \<open>int(highest)\<close> is negative, the
  search returns 0, the split length is \<open>- 2 ^ 63\<close> instead of \<open>2 ^ 63\<close>, and the gauge
  stays 0 although a pair diverges.
\<close>

theorem split_size_overflow_counterexample:
  "divergingPairs (activeNodes (doChecks [nodeX, nodeY])) =
     [(SetStatus nodeX NodeStatusOK, SetStatus nodeY NodeStatusOK)] \<and>
   commonHorizon (SetStatus nodeX NodeStatusOK) (SetStatus nodeY NodeStatusOK)
     = 9223372036854775808 \<and>
   splitHeight (SetStatus nodeX NodeStatusOK) (SetStatus nodeY NodeStatusOK) = 0 \<and>
   splitLength (SetStatus nodeX NodeStatusOK) (SetStatus nodeY NodeStatusOK)
     = - 9223372036854775808 \<and>
   splitLength (SetStatus nodeX NodeStatusOK) (SetStatus nodeY NodeStatusOK) \<noteq>
     uint (commonHorizon (SetStatus nodeX NodeStatusOK) (SetStatus nodeY NodeStatusOK))
       - splitHeight (SetStatus nodeX NodeStatusOK) (SetStatus nodeY NodeStatusOK) \<and>
   gauge (doChecks [nodeX, nodeY]) = 0 \<and>
   gauge (doChecks [nodeX, nodeY]) \<noteq>
     Max (set (map (\<lambda>(a, b). splitLength a b)
       (divergingPairs (activeNodes (doChecks [nodeX, nodeY])))))"
proof -
  have a: "activeNodes (doChecks [nodeX, nodeY]) =
      [SetStatus nodeX NodeStatusOK, SetStatus nodeY NodeStatusOK]"
    by (simp add: doChecks_active)
  have "gauge (doChecks [nodeX, nodeY]) = 0"
    by (simp add: doChecks_gauge a diverging_XY splitLength_XY)
  then show ?thesis
    by (simp add: divergingPairs_def a calls_pairs diverging_XY commonHorizon_XY
        splitHeight_XY splitLength_XY)
qed

section \<open>The reported list of heights\<close>

lemma headList_of_keys:
  "map (\<lambda>(k, _). int_of_uint64 k) hs = map int_of_uint64 (map fst hs)"
  by (simp add: split_def)

lemma distinct_map_int_of_uint64: "distinct ks \<Longrightarrow> distinct (map int_of_uint64 ks)"
  by (simp add: distinct_map inj_on_subset [OF int_of_uint64_inj])

lemma descending_rev_sort:
  "distinct (xs :: int list) \<Longrightarrow> sorted_wrt (>) (rev (sort xs))"
proof -
  assume "distinct xs"
  then have "sorted_wrt (<) (sort xs)"
    by (simp add: strict_sorted_iff)
  then show ?thesis
    by (simp add: sorted_wrt_rev)
qed

lemma sort_enumeration:
  "distinct (xs :: int list) \<Longrightarrow> sort xs = sorted_list_of_set (set xs)"
  by (simp add: sorted_list_of_set_sort_remdups distinct_remdups_id)

lemma headList_of_canonical:
  assumes "distinct ks"
  shows "rev (sort (map int_of_uint64 ks)) = rev (sorted_list_of_set (int_of_uint64 ` set ks))"
  using distinct_map_int_of_uint64 [OF assms] by (simp add: sort_enumeration)

lemma headList_of_order:
  assumes "distinct (map fst hs)" and "distinct ks" and "set ks = keys hs"
  shows "rev (sort (map int_of_uint64 ks)) = headList_of hs"
proof -
  have "set (map fst hs) = set ks" using assms(3) by (simp add: keys_def)
  then show ?thesis
    unfolding headList_of_def headList_of_keys
    by (simp only: headList_of_canonical [OF assms(1)] headList_of_canonical [OF assms(2)])
qed

lemma headList_general:
  "sorted_wrt (>) (headList (doChecks ns)) \<and>
   distinct (headList (doChecks ns)) \<and>
   set (headList (doChecks ns)) = int_of_uint64 ` keys (heads (doChecks ns)) \<and>
   length (headList (doChecks ns)) = card (keys (heads (doChecks ns))) \<and>
   (\<forall>ks. distinct ks \<and> set ks = keys (heads (doChecks ns)) \<longrightarrow>
      rev (sort (map int_of_uint64 ks)) = headList (doChecks ns))"
proof -
  let ?hs = "heads (doChecks ns)"
  let ?ks = "map fst ?hs"
  have d: "distinct ?ks" by (rule doChecks_distinct)
  have k: "set ?ks = keys ?hs" by (simp add: keys_def)
  have h: "headList (doChecks ns) = rev (sort (map int_of_uint64 ?ks))"
    by (simp only: doChecks_headList headList_of_def headList_of_keys)
  have di: "distinct (map int_of_uint64 ?ks)"
    using d by (rule distinct_map_int_of_uint64)
  have 1: "sorted_wrt (>) (headList (doChecks ns))"
    unfolding h using di by (rule descending_rev_sort)
  have 2: "distinct (headList (doChecks ns))"
    unfolding h using di by simp
  have 3: "set (headList (doChecks ns)) = int_of_uint64 ` keys ?hs"
    unfolding h by (simp add: keys_def image_image)
  have "length (headList (doChecks ns)) = length ?ks"
    unfolding h by simp
  also have "\<dots> = card (set ?ks)"
    using distinct_card [OF d] by (rule sym)
  finally have 4: "length (headList (doChecks ns)) = card (keys ?hs)"
    by (simp only: k)
  have 5: "rev (sort (map int_of_uint64 ks)) = headList (doChecks ns)"
    if "distinct ks \<and> set ks = keys ?hs" for ks
    using that d by (simp only: doChecks_headList headList_of_order)
  from 1 2 3 4 5 show ?thesis by blast
qed

text \<open>
  Claim C8, as amended. When every height of interest of a cycle is below \<open>2 ^ 63\<close>,
  the reported list is the set of those heights in strictly descending order, the
  greatest first and each height once, whatever order the map is ranged over.
\<close>

theorem headList_descending:
  "(\<forall>k\<in>keys (heads (doChecks ns)). k < 2 ^ 63) \<longrightarrow>
     headList (doChecks ns) = rev (sorted_list_of_set (uint ` keys (heads (doChecks ns)))) \<and>
     sorted_wrt (>) (headList (doChecks ns)) \<and>
     distinct (headList (doChecks ns)) \<and>
     set (headList (doChecks ns)) = uint ` keys (heads (doChecks ns)) \<and>
     length (headList (doChecks ns)) = card (keys (heads (doChecks ns))) \<and>
     (\<forall>ks. distinct ks \<and> set ks = keys (heads (doChecks ns)) \<longrightarrow>
        rev (sort (map int_of_uint64 ks)) = headList (doChecks ns))"
proof
  let ?hs = "heads (doChecks ns)"
  assume small: "\<forall>k\<in>keys ?hs. k < 2 ^ 63"
  have e: "int_of_uint64 ` keys ?hs = uint ` keys ?hs"
    using small by (intro image_cong refl int_of_uint64_small') blast
  have d: "distinct (map fst ?hs)" by (rule doChecks_distinct)
  have k: "set (map fst ?hs) = keys ?hs" by (simp add: keys_def)
  have "headList (doChecks ns) = rev (sort (map int_of_uint64 (map fst ?hs)))"
    by (simp only: doChecks_headList headList_of_def headList_of_keys)
  then have "headList (doChecks ns) = rev (sorted_list_of_set (uint ` keys ?hs))"
    by (simp only: headList_of_canonical [OF d] k e)
  with headList_general [of ns] e
  show "headList (doChecks ns) = rev (sorted_list_of_set (uint ` keys ?hs)) \<and>
     sorted_wrt (>) (headList (doChecks ns)) \<and>
     distinct (headList (doChecks ns)) \<and>
     set (headList (doChecks ns)) = uint ` keys ?hs \<and>
     length (headList (doChecks ns)) = card (keys ?hs) \<and>
     (\<forall>ks. distinct ks \<and> set ks = keys ?hs \<longrightarrow>
        rev (sort (map int_of_uint64 ks)) = headList (doChecks ns))"
    by simp
qed

lemma heads_FX:
  "heads (doChecks [nodeF, nodeX]) = [(5, True), (9223372036854775808, True)]"
proof -
  have a: "activeNodes (doChecks [nodeF, nodeX]) =
      [SetStatus nodeF NodeStatusOK, SetStatus nodeX NodeStatusOK]"
    by (simp add: doChecks_active)
  have n: "\<not> diverging (SetStatus nodeF NodeStatusOK) (SetStatus nodeX NodeStatusOK)"
    by (simp add: diverging_def commonHorizon_def blockOf_def chainA_def)
  show ?thesis
    by (simp add: doChecks_heads a checkPair_not_diverging [OF n] pollNode_def newCycle_def
        Let_def)
qed

text \<open>
  With heads 5 and \<open>2 ^ 63\<close> the greater height is converted to a negative integer
  and reported last.
\<close>

theorem headList_overflow_counterexample:
  "keys (heads (doChecks [nodeF, nodeX])) = {5, 9223372036854775808} \<and>
   headList (doChecks [nodeF, nodeX]) = [5, - 9223372036854775808] \<and>
   rev (sorted_list_of_set (uint ` keys (heads (doChecks [nodeF, nodeX]))))
     = [9223372036854775808, 5] \<and>
   headList (doChecks [nodeF, nodeX]) \<noteq>
     rev (sorted_list_of_set (uint ` keys (heads (doChecks [nodeF, nodeX]))))"
proof -
  have k: "keys (heads (doChecks [nodeF, nodeX])) = {5, 9223372036854775808}"
    and h: "headList (doChecks [nodeF, nodeX]) = [5, - 9223372036854775808]"
    by (simp_all add: doChecks_headList heads_FX headList_of_def keys_def int_of_uint64_def)
  have "uint ` {5, 9223372036854775808 :: uint64} = set [5, 9223372036854775808]"
    by auto
  moreover have "sorted_list_of_set (set [5, 9223372036854775808 :: int])
      = [5, 9223372036854775808]"
    by (rule sorted_list_of_set.idem_if_sorted_distinct) simp_all
  ultimately have "rev (sorted_list_of_set (uint ` keys (heads (doChecks [nodeF, nodeX]))))
     = [9223372036854775808, 5]"
    by (simp only: k) simp
  with k h show ?thesis by simp
qed

theorem headList_descending_witness:
  "keys (heads (doChecks [nodeA, nodeB, nodeC])) = {100, 98, 50, 49} \<and>
   headList (doChecks [nodeA, nodeB, nodeC]) = [100, 98, 50, 49]"
proof -
  have k: "keys (heads (doChecks [nodeA, nodeB, nodeC])) = {100, 98, 50, 49}"
    by (simp add: doChecks_keys active_ABC boundary_ABC insert_commute)
  note th = headList_descending [of "[nodeA, nodeB, nodeC]"]
  have "\<forall>k\<in>keys (heads (doChecks [nodeA, nodeB, nodeC])). k < 2 ^ 63"
    by (simp add: k)
  from th [THEN mp, OF this, THEN conjunct1]
  have "headList (doChecks [nodeA, nodeB, nodeC]) =
      rev (sorted_list_of_set (uint ` {100, 98, 50, 49 :: uint64}))"
    by (simp only: k)
  also have "uint ` {100, 98, 50, 49 :: uint64} = set [49, 50, 98, 100]"
    by auto
  also have "sorted_list_of_set (set [49, 50, 98, 100 :: int]) = [49, 50, 98, 100]"
    by (rule sorted_list_of_set.idem_if_sorted_distinct) simp_all
  finally show ?thesis using k by simp
qed

section \<open>The header store is written once\<close>

lemma byteCodec_fields [simp]:
  "EncodeToBytes byteCodec h = Inr [h]" "DecodeBytes byteCodec [b] = Inr b"
  "DecodeBytes byteCodec [b, c] = Inl ''unexpected length''"
  by (simp_all add: byteCodec_def)

lemma store_fields [simp]:
  "readErr (db emptyStore) = None" "writeErr (db emptyStore) = None"
  "kv (db emptyStore) = Map.empty"
  "readErr (db closedStore) = Some (ErrOther ''closed'')" "kv (db closedStore) = [[1] \<mapsto> [7]]"
  "readErr (db garbledStore) = None" "kv (db garbledStore) = [[1] \<mapsto> [7, 7]]"
  by (simp_all add: emptyStore_def closedStore_def garbledStore_def)

lemma add_existing:
  "readErr (db bdb) = None \<Longrightarrow> kv (db bdb) key \<noteq> None \<Longrightarrow> add codec bdb key h = Inr bdb"
  by (simp add: add_def ldb_Has_def)

lemma add_fresh:
  "readErr (db bdb) = None \<Longrightarrow> writeErr (db bdb) = None \<Longrightarrow> kv (db bdb) key = None \<Longrightarrow>
   EncodeToBytes codec h = Inr data \<Longrightarrow>
   add codec bdb key h = Inr (bdb\<lparr>db := (db bdb)\<lparr>kv := (kv (db bdb))(key \<mapsto> data)\<rparr>\<rparr>)"
  by (simp add: add_def ldb_Has_def ldb_Put_def)

lemma add_result:
  assumes "readErr (db bdb) = None" and "writeErr (db bdb) = None"
    and "add codec bdb key h = Inr bdb'"
  shows "readErr (db bdb') = None \<and> writeErr (db bdb') = None \<and> kv (db bdb') key \<noteq> None \<and>
         (\<forall>v. kv (db bdb) key = Some v \<longrightarrow> bdb' = bdb) \<and>
         (kv (db bdb) key = None \<longrightarrow>
            (\<exists>data. EncodeToBytes codec h = Inr data \<and> kv (db bdb') key = Some data))"
  using assms
  by (auto simp: add_def ldb_Has_def ldb_Put_def Let_def split: if_splits sum.splits)

lemma get_stored:
  "readErr (db bdb) = None \<Longrightarrow> kv (db bdb) key = Some data \<Longrightarrow> DecodeBytes codec data = Inr h \<Longrightarrow>
   get codec bdb key = Inr (Some h)"
  by (simp add: get_def ldb_Get_def)

lemma add_unchanged_twice:
  assumes "readErr (db bdb) = None"
    and "add codec bdb key hfirst = Inr bdb'"
    and "add codec bdb' key hsecond = Inr bdb''"
  shows "bdb'' = bdb'"
  using assms
  by (auto simp: add_def ldb_Has_def ldb_Put_def Let_def split: if_splits sum.splits option.splits)

lemma add_keeps_value:
  assumes "readErr (db bdb) = None" and "kv (db bdb) key = Some data"
    and "add codec bdb key h = Inr bdb'"
  shows "bdb' = bdb"
  using assms by (simp add: add_existing)

lemma fault_fields [simp]:
  "readErr (db readFaultStore) = Some (ErrOther ''read error'')"
  "writeErr (db readFaultStore) = None" "kv (db readFaultStore) = [[1] \<mapsto> [7]]"
  "readErr (db writeFaultStore) = None"
  "writeErr (db writeFaultStore) = Some (ErrOther ''write error'')"
  "kv (db writeFaultStore) = Map.empty"
  by (simp_all add: readFaultStore_def writeFaultStore_def)

lemma ptrCodec_fields [simp]:
  "EncodeToBytes ptrCodec None = Inr [192]"
  "DecodeBytes ptrCodec [192] = Inl ''rlp: too few elements''"
  by (simp_all add: ptrCodec_def)

text \<open>
  Claim C5, as amended. On a store whose reads succeed, \<open>add\<close> under a key that is
  present returns the store as it was, and after a first \<open>add\<close> under a key a second
  \<open>add\<close> under that key, with whatever header, changes nothing: the value stays that
  of the first write. When the writes succeed too, \<open>get\<close> after \<open>add\<close> returns the
  header stored first: the one just added when the key was new and its encoding decodes
  back to it, the one already there otherwise.
\<close>

theorem add_idempotent:
  "(readErr (db bdb) = None \<longrightarrow>
      (kv (db bdb) key \<noteq> None \<longrightarrow> add codec bdb key h = Inr bdb) \<and>
      (\<forall>bdb' bdb''. add codec bdb key hfirst = Inr bdb' \<and>
           add codec bdb' key hsecond = Inr bdb'' \<longrightarrow> bdb'' = bdb')) \<and>
   (readErr (db bdb) = None \<and> writeErr (db bdb) = None \<longrightarrow>
      (\<forall>bdb'. add codec bdb key hfirst = Inr bdb' \<longrightarrow>
         add codec bdb' key hsecond = Inr bdb' \<and>
         (kv (db bdb) key = None \<and>
          (\<forall>data. EncodeToBytes codec hfirst = Inr data \<longrightarrow> DecodeBytes codec data = Inr hfirst)
            \<longrightarrow> get codec bdb' key = Inr (Some hfirst)) \<and>
         (\<forall>data hold. kv (db bdb) key = Some data \<and> DecodeBytes codec data = Inr hold \<longrightarrow>
            kv (db bdb') key = Some data \<and> get codec bdb' key = Inr (Some hold))))"
proof (intro conjI impI allI)
  show "add codec bdb key h = Inr bdb"
    if "readErr (db bdb) = None" "kv (db bdb) key \<noteq> None"
    using that by (rule add_existing)
  show "bdb'' = bdb'"
    if "readErr (db bdb) = None"
      "add codec bdb key hfirst = Inr bdb' \<and> add codec bdb' key hsecond = Inr bdb''"
    for bdb' bdb''
    by (rule add_unchanged_twice [OF that(1) that(2) [THEN conjunct1] that(2) [THEN conjunct2]])
next
  fix bdb'
  assume ok: "readErr (db bdb) = None \<and> writeErr (db bdb) = None"
    and a: "add codec bdb key hfirst = Inr bdb'"
  note r = add_result [OF ok [THEN conjunct1] ok [THEN conjunct2] a]
  show "add codec bdb' key hsecond = Inr bdb'"
    using r by (simp add: add_existing)
  show "get codec bdb' key = Inr (Some hfirst)"
    if "kv (db bdb) key = None \<and>
        (\<forall>data. EncodeToBytes codec hfirst = Inr data \<longrightarrow> DecodeBytes codec data = Inr hfirst)"
  proof -
    from that have fresh: "kv (db bdb) key = None"
      and rt: "\<And>data. EncodeToBytes codec hfirst = Inr data \<Longrightarrow> DecodeBytes codec data = Inr hfirst"
      by simp_all
    from r [THEN conjunct2, THEN conjunct2, THEN conjunct2, THEN conjunct2, THEN mp, OF fresh]
    obtain data where d: "EncodeToBytes codec hfirst = Inr data"
      "kv (db bdb') key = Some data" by (elim exE conjE)
    from r have "readErr (db bdb') = None" by (rule conjunct1)
    then show ?thesis using d(2) rt [OF d(1)] by (rule get_stored)
  qed
  fix data hold assume s: "kv (db bdb) key = Some data \<and> DecodeBytes codec data = Inr hold"
  with r have e: "bdb' = bdb" by blast
  show "kv (db bdb') key = Some data" using s e by simp
  show "get codec bdb' key = Inr (Some hold)" using s e ok by (simp add: get_stored)
qed

lemma add_emptyStore:
  "add byteCodec emptyStore [1] 7 = Inr (emptyStore\<lparr>db := (db emptyStore)\<lparr>kv := [[1] \<mapsto> [7]]\<rparr>\<rparr>)"
  by (simp add: add_fresh)

theorem add_idempotent_witness:
  "add byteCodec emptyStore [1] 7 =
     Inr (emptyStore\<lparr>db := (db emptyStore)\<lparr>kv := [[1] \<mapsto> [7]]\<rparr>\<rparr>) \<and>
   add byteCodec (emptyStore\<lparr>db := (db emptyStore)\<lparr>kv := [[1] \<mapsto> [7]]\<rparr>\<rparr>) [1] 9 =
     Inr (emptyStore\<lparr>db := (db emptyStore)\<lparr>kv := [[1] \<mapsto> [7]]\<rparr>\<rparr>) \<and>
   get byteCodec (emptyStore\<lparr>db := (db emptyStore)\<lparr>kv := [[1] \<mapsto> [7]]\<rparr>\<rparr>) [1] = Inr (Some 7)"
proof -
  let ?s = "emptyStore\<lparr>db := (db emptyStore)\<lparr>kv := [[1] \<mapsto> [7]]\<rparr>\<rparr>"
  have ok: "readErr (db emptyStore) = None \<and> writeErr (db emptyStore) = None" by simp
  note th = add_idempotent [where bdb = emptyStore and key = "[1]" and codec = byteCodec
      and hfirst = 7 and hsecond = 9 and h = 7, THEN conjunct2, THEN mp, OF ok, rule_format,
      OF add_emptyStore]
  have fresh: "kv (db emptyStore) [1] = None \<and>
      (\<forall>data. EncodeToBytes byteCodec 7 = Inr data \<longrightarrow> DecodeBytes byteCodec data = Inr 7)"
    by auto
  from th have "add byteCodec ?s [1] 9 = Inr ?s" by blast
  moreover from th fresh have "get byteCodec ?s [1] = Inr (Some 7)" by blast
  ultimately show ?thesis using add_emptyStore by simp
qed

text \<open>
  \<open>add\<close> drops the errors of \<open>Has\<close> and \<open>Put\<close>. When \<open>Has\<close> fails and \<open>Put\<close> succeeds,
  \<open>add\<close> overwrites the value of a key that is present. When \<open>Put\<close> fails, nothing is
  stored and \<open>get\<close> after \<open>add\<close> returns \<open>nil\<close>. A \<open>nil\<close> header is encoded and stored,
  and \<open>get\<close> after \<open>add\<close> panics.
\<close>

theorem add_faults_counterexample:
  "kv (db readFaultStore) [1] = Some [7] \<and>
   add byteCodec readFaultStore [1] 9 =
     Inr (readFaultStore\<lparr>db := (db readFaultStore)\<lparr>kv := [[1] \<mapsto> [9]]\<rparr>\<rparr>) \<and>
   add byteCodec readFaultStore [1] 9 \<noteq> Inr readFaultStore \<and>
   add byteCodec writeFaultStore [1] 7 = Inr writeFaultStore \<and>
   get byteCodec writeFaultStore [1] = Inr None \<and>
   add ptrCodec emptyStore [1] None =
     Inr (emptyStore\<lparr>db := (db emptyStore)\<lparr>kv := [[1] \<mapsto> [192]]\<rparr>\<rparr>) \<and>
   get ptrCodec (emptyStore\<lparr>db := (db emptyStore)\<lparr>kv := [[1] \<mapsto> [192]]\<rparr>\<rparr>) [1] =
     Inl (Panic ''Failed decoding our own data: rlp: too few elements'')"
proof -
  have 1: "add byteCodec readFaultStore [1] 9 =
     Inr (readFaultStore\<lparr>db := (db readFaultStore)\<lparr>kv := [[1] \<mapsto> [9]]\<rparr>\<rparr>)"
    by (simp add: add_def ldb_Has_def ldb_Put_def)
  have 2: "add byteCodec writeFaultStore [1] 7 = Inr writeFaultStore"
    by (simp add: add_def ldb_Has_def ldb_Put_def)
  have 3: "get byteCodec writeFaultStore [1] = Inr None"
    by (simp add: get_def ldb_Get_def)
  have 4: "add ptrCodec emptyStore [1] None =
     Inr (emptyStore\<lparr>db := (db emptyStore)\<lparr>kv := [[1] \<mapsto> [192]]\<rparr>\<rparr>)"
    by (simp add: add_fresh)
  have 5: "get ptrCodec (emptyStore\<lparr>db := (db emptyStore)\<lparr>kv := [[1] \<mapsto> [192]]\<rparr>\<rparr>) [1] =
     Inl (Panic ''Failed decoding our own data: rlp: too few elements'')"
    by (simp add: get_def ldb_Get_def)
  have 6: "add byteCodec readFaultStore [1] 9 \<noteq> Inr readFaultStore"
  proof
    assume "add byteCodec readFaultStore [1] 9 = Inr readFaultStore"
    with 1 have "readFaultStore\<lparr>db := (db readFaultStore)\<lparr>kv := [[1] \<mapsto> [9]]\<rparr>\<rparr> = readFaultStore"
      by simp
    from arg_cong [OF this, where f = "\<lambda>s. kv (db s) [1]"] show False
      by simp
  qed
  from 1 2 3 4 5 6 show ?thesis by simp
qed

section \<open>Opening the store\<close>

lemma corrupted_iff: "corrupted r = (\<exists>m. r = Inl (ErrCorrupted m))"
  by (cases r rule: corrupted.cases) auto

text \<open>
  What \<open>NewBlockDB\<close> does, by the result of \<open>OpenFile\<close>: on an \<open>*errors.ErrCorrupted\<close>
  it calls \<open>RecoverFile\<close> and returns what that returns; any other error, and a store
  that opens, is returned with no call of \<open>RecoverFile\<close>.
\<close>

lemma NewBlockDB_cases:
  "(\<forall>m. OpenFile d ''blockDB'' = Inl (ErrCorrupted m) \<longrightarrow>
      snd (NewBlockDB d) = [CallOpenFile ''blockDB'', CallRecoverFile ''blockDB''] \<and>
      (\<forall>err. fst (NewBlockDB d) = Inl err \<longleftrightarrow> RecoverFile d ''blockDB'' = Inl err) \<and>
      (\<forall>h. fst (NewBlockDB d) = Inr \<lparr>db = h\<rparr> \<longleftrightarrow> RecoverFile d ''blockDB'' = Inr h)) \<and>
   (\<forall>err. OpenFile d ''blockDB'' = Inl err \<and> (\<forall>m. err \<noteq> ErrCorrupted m) \<longrightarrow>
      NewBlockDB d = (Inl err, [CallOpenFile ''blockDB''])) \<and>
   (\<forall>h. OpenFile d ''blockDB'' = Inr h \<longrightarrow>
      NewBlockDB d = (Inr \<lparr>db = h\<rparr>, [CallOpenFile ''blockDB'']))"
proof (intro conjI allI impI)
  fix m assume c: "OpenFile d ''blockDB'' = Inl (ErrCorrupted m)"
  then have n: "NewBlockDB d =
      (case RecoverFile d ''blockDB'' of Inl err \<Rightarrow> Inl err | Inr h \<Rightarrow> Inr \<lparr>db = h\<rparr>,
       [CallOpenFile ''blockDB'', CallRecoverFile ''blockDB''])"
    by (simp add: NewBlockDB_def Let_def split: sum.splits)
  show "snd (NewBlockDB d) = [CallOpenFile ''blockDB'', CallRecoverFile ''blockDB'']"
    by (simp add: n)
  show "fst (NewBlockDB d) = Inl err \<longleftrightarrow> RecoverFile d ''blockDB'' = Inl err" for err
    by (simp add: n split: sum.splits)
  show "fst (NewBlockDB d) = Inr \<lparr>db = h\<rparr> \<longleftrightarrow> RecoverFile d ''blockDB'' = Inr h" for h
    by (simp add: n split: sum.splits)
next
  fix err assume "OpenFile d ''blockDB'' = Inl err \<and> (\<forall>m. err \<noteq> ErrCorrupted m)"
  then show "NewBlockDB d = (Inl err, [CallOpenFile ''blockDB''])"
    by (simp add: NewBlockDB_def Let_def corrupted_iff)
next
  fix h assume "OpenFile d ''blockDB'' = Inr h"
  then show "NewBlockDB d = (Inr \<lparr>db = h\<rparr>, [CallOpenFile ''blockDB''])"
    by (simp add: NewBlockDB_def Let_def)
qed

lemma NewBlockDB_examples:
  "NewBlockDB corruptDisk =
     (Inr emptyStore, [CallOpenFile ''blockDB'', CallRecoverFile ''blockDB'']) \<and>
   NewBlockDB lostDisk =
     (Inl (ErrOther ''no such file''), [CallOpenFile ''blockDB'', CallRecoverFile ''blockDB'']) \<and>
   NewBlockDB lockedDisk =
     (Inl (ErrOther ''resource temporarily unavailable''), [CallOpenFile ''blockDB''])"
  by (simp add: NewBlockDB_def Let_def corruptDisk_def lostDisk_def lockedDisk_def emptyStore_def)

lemma NewBlockDB_storage_corruption:
  "OpenFile d ''blockDB'' = Inl (StorageErrCorrupted m) \<Longrightarrow>
   NewBlockDB d = (Inl (StorageErrCorrupted m), [CallOpenFile ''blockDB''])"
  by (simp add: NewBlockDB_def Let_def)

text \<open>
  Claim C9. \<open>NewBlockDB\<close> asserts the type \<open>*errors.ErrCorrupted\<close> only. When
  \<open>OpenFile\<close> fails with a \<open>*storage.ErrCorrupted\<close>, which \<open>errors.IsCorrupted\<close> counts
  as corruption too, \<open>NewBlockDB\<close> returns that error and does not call
  \<open>RecoverFile\<close>, although \<open>RecoverFile\<close> would have returned the store.
\<close>

theorem NewBlockDB_misses_storage_corruption:
  "OpenFile damagedDisk ''blockDB'' = Inl (StorageErrCorrupted ''CURRENT'') \<and>
   IsCorrupted (StorageErrCorrupted ''CURRENT'') \<and>
   RecoverFile damagedDisk ''blockDB'' = Inr (db emptyStore) \<and>
   NewBlockDB damagedDisk = (Inl (StorageErrCorrupted ''CURRENT''), [CallOpenFile ''blockDB'']) \<and>
   CallRecoverFile ''blockDB'' \<notin> set (snd (NewBlockDB damagedDisk))"
proof -
  have o: "OpenFile damagedDisk ''blockDB'' = Inl (StorageErrCorrupted ''CURRENT'')"
    by (simp add: damagedDisk_def)
  from NewBlockDB_storage_corruption [OF o] o show ?thesis
    by (simp add: IsCorrupted_def damagedDisk_def)
qed

section \<open>Reading the store\<close>

text \<open>
  Claim C10. Whatever error the read of the store returns, \<open>get\<close> returns \<open>nil\<close> and
  does not panic; that covers a key that is absent and a faulty store. \<open>get\<close> panics
  only when the store holds bytes under the key and they fail to decode; bytes that
  decode give the header.
\<close>

theorem get_collapses_read_failures:
  "(\<forall>err. ldb_Get (db bdb) key = Inl err \<longrightarrow> get codec bdb key = Inr None) \<and>
   (kv (db bdb) key = None \<longrightarrow> get codec bdb key = Inr None) \<and>
   (readErr (db bdb) \<noteq> None \<longrightarrow> get codec bdb key = Inr None) \<and>
   (\<forall>p. get codec bdb key = Inl p \<longrightarrow>
      (\<exists>data err. ldb_Get (db bdb) key = Inr data \<and> kv (db bdb) key = Some data \<and>
         DecodeBytes codec data = Inl err \<and>
         p = Panic (''Failed decoding our own data: '' @ err))) \<and>
   (\<forall>data h. ldb_Get (db bdb) key = Inr data \<and> DecodeBytes codec data = Inr h \<longrightarrow>
      get codec bdb key = Inr (Some h))"
  by (auto simp: get_def ldb_Get_def split: option.splits sum.splits)

theorem get_collapses_read_failures_witness:
  "ldb_Get (db emptyStore) [1] = Inl ErrNotFound \<and>
   get byteCodec emptyStore [1] = Inr None \<and>
   ldb_Get (db closedStore) [1] = Inl (ErrOther ''closed'') \<and>
   get byteCodec closedStore [1] = Inr None \<and>
   get byteCodec garbledStore [1] =
     Inl (Panic ''Failed decoding our own data: unexpected length'')"
proof -
  have a: "ldb_Get (db emptyStore) [1] = Inl ErrNotFound"
    and b: "ldb_Get (db closedStore) [1] = Inl (ErrOther ''closed'')"
    and c: "ldb_Get (db garbledStore) [1] = Inr [7, 7]"
    by (simp_all add: ldb_Get_def)
  note th = get_collapses_read_failures [where codec = byteCodec and key = "[1]"]
  from th [of emptyStore, THEN conjunct1, rule_format, OF a]
  have 1: "get byteCodec emptyStore [1] = Inr None" .
  from th [of closedStore, THEN conjunct1, rule_format, OF b]
  have 2: "get byteCodec closedStore [1] = Inr None" .
  have "\<exists>p. get byteCodec garbledStore [1] = Inl p"
    by (simp add: get_def c)
  then obtain p where p: "get byteCodec garbledStore [1] = Inl p" ..
  from th [of garbledStore, THEN conjunct2, THEN conjunct2, THEN conjunct2, THEN conjunct1,
      rule_format, OF p]
  have 3: "get byteCodec garbledStore [1] =
     Inl (Panic ''Failed decoding our own data: unexpected length'')"
    by (auto simp: p c)
  from a b 1 2 3 show ?thesis by blast
qed

end
